theory Spec2Isabelle
  imports Main "HOL-Library.AList"
begin

section \<open>Values of the host language\<close>

text \<open>
  The two utility modules work on JavaScript values. A value is a primitive, one of the
  opaque leaf objects the walker copies without looking inside (\<open>Date\<close>,
  \<open>Timestamp\<close>, \<open>GeoPoint\<close>), a document reference (its path and, if it has one,
  its decoding adapter), a function of the host (by its name), or an object. An object
  has an identity (the number it was allocated under), a class (plain record, or array
  with its \<open>length\<close>) and its own properties, each with a descriptor. A property key is
  an array index or a name that is not an array index; the properties are listed in the
  order in which the host enumerates own keys (indices ascending, then names in creation
  order).

  Scope of the model. Numbers are integers, printed in plain decimal (as the host prints
  them below \<open>10^21\<close>). Own properties are data properties. What a property read or
  the \<open>in\<close> operator finds beyond the own properties (the members inherited from
  the prototype objects) and how an object is converted to a property key are given by
  the host, which is a parameter of the model. Names of the form \<open>__x__\<close>, which the
  document store reserves, are not used as keys. The documents, old documents and registry
  entries given to the walker are values it never writes; the objects it writes are the
  ones it allocates.
\<close>

datatype pkey = Idx nat | Name string

record attrs =
  enumerable :: bool
  writable :: bool
  configurable :: bool

datatype opaque_kind = KDate | KTimestamp | KGeoPoint

datatype obj_class = ClsPlain | ClsArray nat

type_synonym converter = nat

datatype jsval =
    VUndefined
  | VNull
  | VBool bool
  | VNum int
  | VStr string
  | VOpaque opaque_kind string
  | VRef string "converter option"
  | VFun string
  | VObj nat obj_class "(pkey \<times> attrs \<times> jsval) list"

type_synonym props = "(pkey \<times> attrs \<times> jsval) list"

text \<open>Descriptor of a property created by assignment, and the descriptor
  \<open>Object.defineProperties\<close> gives a property when only \<open>value\<close> is supplied.\<close>

definition assigned_attrs :: attrs where
  "assigned_attrs = \<lparr>enumerable = True, writable = True, configurable = True\<rparr>"

definition defined_attrs :: attrs where
  "defined_attrs = \<lparr>enumerable = False, writable = False, configurable = False\<rparr>"

definition length_attrs :: attrs where
  "length_attrs = \<lparr>enumerable = False, writable = True, configurable = False\<rparr>"

subsection \<open>The host\<close>

text \<open>
  The values the host itself supplies on a property read are primitives and functions.
  The host gives

  \<^item> \<open>proto_member c s\<close>: the member named \<open>s\<close> that an object of class \<open>c\<close>
    inherits from its prototype chain (\<open>Object.prototype\<close> for a record,
    \<open>Array.prototype\<close> and then \<open>Object.prototype\<close> for an array), if there is one;
    no prototype has a member under an array index;

  \<^item> \<open>foreign_prop v k\<close>: what the read \<open>v[k]\<close> returns for a value \<open>v\<close> that is
    neither a record nor an array (a primitive with its wrapper, a function, an opaque
    leaf, a reference);

  \<^item> \<open>object_key v\<close>: the property key that the conversion \<open>ToPropertyKey\<close> gives for
    an object \<open>v\<close>, which calls the object's \<open>toString\<close> and \<open>valueOf\<close>; it is
    \<open>None\<close> when the conversion throws a \<open>TypeError\<close> (neither method returns a
    primitive).
\<close>

datatype prim = PUndefined | PNull | PBool bool | PNum int | PStr string | PFun string

fun of_prim :: "prim \<Rightarrow> jsval" where
  "of_prim PUndefined = VUndefined"
| "of_prim PNull = VNull"
| "of_prim (PBool b) = VBool b"
| "of_prim (PNum i) = VNum i"
| "of_prim (PStr s) = VStr s"
| "of_prim (PFun f) = VFun f"

record host =
  proto_member :: "obj_class \<Rightarrow> string \<Rightarrow> prim option"
  foreign_prop :: "jsval \<Rightarrow> pkey \<Rightarrow> prim"
  object_key :: "jsval \<Rightarrow> string option"

datatype error = TypeError

subsection \<open>Printing numbers and keys\<close>

definition digit_char :: "nat \<Rightarrow> char" where
  "digit_char d = char_of (48 + d)"

function show_nat :: "nat \<Rightarrow> string" where
  "show_nat n = (if n < 10 then [digit_char n] else show_nat (n div 10) @ [digit_char (n mod 10)])"
  by pat_completeness auto
termination
  by (relation "measure id") auto

declare show_nat.simps [simp del]

definition show_int :: "int \<Rightarrow> string" where
  "show_int i = (if i < 0 then CHR ''-'' # show_nat (nat (- i)) else show_nat (nat i))"

fun key_str :: "pkey \<Rightarrow> string" where
  "key_str (Idx i) = show_nat i"
| "key_str (Name s) = s"

subsection \<open>Reading values\<close>

fun truthy :: "jsval \<Rightarrow> bool" where
  "truthy VUndefined = False"
| "truthy VNull = False"
| "truthy (VBool b) = b"
| "truthy (VNum i) = (i \<noteq> 0)"
| "truthy (VStr s) = (s \<noteq> [])"
| "truthy (VOpaque k s) = True"
| "truthy (VRef p c) = True"
| "truthy (VFun f) = True"
| "truthy (VObj a c ps) = True"

fun props_of :: "jsval \<Rightarrow> props" where
  "props_of (VObj a c ps) = ps"
| "props_of v = []"

fun class_of :: "jsval \<Rightarrow> obj_class option" where
  "class_of (VObj a c ps) = Some c"
| "class_of v = None"

fun oid_of :: "jsval \<Rightarrow> nat option" where
  "oid_of (VObj a c ps) = Some a"
| "oid_of v = None"

text \<open>\<open>Object.getOwnPropertyDescriptor\<close> restricted to the stored properties.\<close>

definition get_own :: "jsval \<Rightarrow> pkey \<Rightarrow> (attrs \<times> jsval) option" where
  "get_own v k = map_of (props_of v) k"

fun is_array_class :: "obj_class \<Rightarrow> bool" where
  "is_array_class (ClsArray n) = True"
| "is_array_class ClsPlain = False"

fun class_length :: "obj_class \<Rightarrow> nat" where
  "class_length (ClsArray n) = n"
| "class_length ClsPlain = 0"

text \<open>The member an object of class \<open>c\<close> inherits under the key \<open>k\<close>.\<close>

fun inherited :: "host \<Rightarrow> obj_class \<Rightarrow> pkey \<Rightarrow> jsval option" where
  "inherited h c (Name s) = map_option of_prim (proto_member h c s)"
| "inherited h c (Idx i) = None"

text \<open>Property read \<open>v[k]\<close>. On a record or an array: the \<open>length\<close> of an array, an
  own property, else the inherited member, else \<open>undefined\<close>. On a string its
  characters and its \<open>length\<close>, on a reference its \<open>path\<close>; every other read of a
  value that is not a record or an array is the host's. (A read on \<open>undefined\<close> or
  \<open>null\<close> throws in the host; the walker guards every read against them.)\<close>

fun get_prop :: "host \<Rightarrow> jsval \<Rightarrow> pkey \<Rightarrow> jsval" where
  "get_prop h (VObj a c ps) k =
     (if is_array_class c \<and> k = Name ''length'' then VNum (int (class_length c))
      else (case map_of ps k of
              Some e \<Rightarrow> snd e
            | None \<Rightarrow> (case inherited h c k of Some m \<Rightarrow> m | None \<Rightarrow> VUndefined)))"
| "get_prop h VUndefined k = VUndefined"
| "get_prop h VNull k = VUndefined"
| "get_prop h (VStr s) k =
     (case k of
        Idx i \<Rightarrow> if i < length s then VStr [s ! i] else VUndefined
      | Name m \<Rightarrow> if m = ''length'' then VNum (int (length s))
                  else of_prim (foreign_prop h (VStr s) k))"
| "get_prop h (VRef p c) k =
     (if k = Name ''path'' then VStr p else of_prim (foreign_prop h (VRef p c) k))"
| "get_prop h v k = of_prim (foreign_prop h v k)"

text \<open>The operator \<open>k in obj\<close> and the read \<open>obj[k]\<close> on a record made by an
  object literal whose own properties are the entries of a list keyed by strings.\<close>

definition has_key :: "host \<Rightarrow> (string \<times> jsval) list \<Rightarrow> string \<Rightarrow> bool" where
  "has_key h own k = (map_of own k \<noteq> None \<or> proto_member h ClsPlain k \<noteq> None)"

definition read_key :: "host \<Rightarrow> (string \<times> jsval) list \<Rightarrow> string \<Rightarrow> jsval" where
  "read_key h own k =
     (case map_of own k of
        Some v \<Rightarrow> v
      | None \<Rightarrow> (case proto_member h ClsPlain k of Some m \<Rightarrow> of_prim m | None \<Rightarrow> VUndefined))"

text \<open>Conversion of a value to a property key (\<open>ToPropertyKey\<close>), as the \<open>in\<close>
  operator applies it to its left operand; \<open>None\<close> when it throws.\<close>

fun to_key :: "host \<Rightarrow> jsval \<Rightarrow> string option" where
  "to_key h VUndefined = Some ''undefined''"
| "to_key h VNull = Some ''null''"
| "to_key h (VBool b) = Some (if b then ''true'' else ''false'')"
| "to_key h (VNum i) = Some (show_int i)"
| "to_key h (VStr s) = Some s"
| "to_key h v = object_key h v"

subsection \<open>Writing properties\<close>

fun comes_before :: "pkey \<Rightarrow> pkey \<Rightarrow> bool" where
  "comes_before (Idx i) (Idx j) = (i < j)"
| "comes_before (Idx i) (Name t) = True"
| "comes_before (Name s) k = False"

fun insert_prop :: "pkey \<Rightarrow> attrs \<times> jsval \<Rightarrow> props \<Rightarrow> props" where
  "insert_prop k e [] = [(k, e)]"
| "insert_prop k e (p # ps) =
     (if comes_before k (fst p) then (k, e) # p # ps else p # insert_prop k e ps)"

fun grow :: "obj_class \<Rightarrow> pkey \<Rightarrow> obj_class" where
  "grow (ClsArray n) (Idx i) = ClsArray (max n (Suc i))"
| "grow c k = c"

text \<open>Assignment \<open>obj[k] = v\<close>: an existing property keeps its descriptor, a new one is
  created enumerable, writable and configurable, at its place in the key order. (The walker
  assigns only to objects it has allocated, under keys that are absent or were created by an
  earlier assignment, so the read-only case of the host does not arise; an inherited
  member of the same name is shadowed by the new own property.)\<close>

fun set_prop :: "jsval \<Rightarrow> pkey \<Rightarrow> jsval \<Rightarrow> jsval" where
  "set_prop (VObj a c ps) k v =
     VObj a (grow c k)
       (case map_of ps k of
          Some e \<Rightarrow> AList.update k (fst e, v) ps
        | None \<Rightarrow> insert_prop k (assigned_attrs, v) ps)"
| "set_prop x k v = x"

text \<open>\<open>Object.defineProperty(obj, k, descriptor)\<close>. On an array the key \<open>length\<close>
  sets the length, dropping the elements beyond it.\<close>

fun define_property :: "jsval \<Rightarrow> pkey \<Rightarrow> attrs \<times> jsval \<Rightarrow> jsval" where
  "define_property (VObj a c ps) k d =
     (if is_array_class c \<and> k = Name ''length'' then
        (case snd d of
           VNum m \<Rightarrow>
             if m = int (class_length c) then VObj a c ps
             else VObj a (ClsArray (nat m))
                    (filter (\<lambda>p. case fst p of Idx i \<Rightarrow> i < nat m | Name s \<Rightarrow> True) ps)
         | _ \<Rightarrow> VObj a c ps)
      else
        VObj a (grow c k)
          (case map_of ps k of
             Some e \<Rightarrow> AList.update k d ps
           | None \<Rightarrow> insert_prop k d ps))"
| "define_property x k d = x"

text \<open>\<open>Object.getOwnPropertyNames\<close> with the descriptor of each name: the stored
  properties, and the non-enumerable \<open>length\<close> of an array.\<close>

fun own_props :: "jsval \<Rightarrow> props" where
  "own_props (VObj a c ps) =
     ps @ (case c of ClsPlain \<Rightarrow> [] | ClsArray n \<Rightarrow> [(Name ''length'', length_attrs, VNum (int n))])"
| "own_props v = []"

text \<open>The keys a \<open>for ... in\<close> loop visits, each with the value read under it. (The
  inherited members of the host's prototypes are not enumerable.)\<close>

fun for_in :: "jsval \<Rightarrow> (pkey \<times> jsval) list" where
  "for_in (VObj a c ps) = map (\<lambda>p. (fst p, snd (snd p))) (filter (\<lambda>p. enumerable (fst (snd p))) ps)"
| "for_in v = []"

section \<open>Classification of values\<close>

text \<open>Modelled from the spec: \<open>isObject\<close>, \<open>isPOJO\<close> and \<open>isDocumentRef\<close> of
  the shared module, which is not among the sources. The spec describes a closed
  classification of a value as structured container, opaque scalar-like value,
  reference-like value or array; \<open>isPOJO\<close> accepts the structured plain objects,
  \<open>isObject\<close> the structured containers (plain or array), \<open>isDocumentRef\<close> the
  reference-like values.\<close>

fun isPOJO :: "jsval \<Rightarrow> bool" where
  "isPOJO (VObj a ClsPlain ps) = True"
| "isPOJO v = False"

fun isObject :: "jsval \<Rightarrow> bool" where
  "isObject (VObj a c ps) = True"
| "isObject v = False"

fun isDocumentRef :: "jsval \<Rightarrow> bool" where
  "isDocumentRef (VRef p c) = True"
| "isDocumentRef v = False"

text \<open>\<open>ref instanceof Date || ref instanceof Timestamp || ref instanceof GeoPoint\<close>
  and \<open>Array.isArray\<close>.\<close>

fun is_opaque :: "jsval \<Rightarrow> bool" where
  "is_opaque (VOpaque k s) = True"
| "is_opaque v = False"

fun isArray :: "jsval \<Rightarrow> bool" where
  "isArray (VObj a c ps) = is_array_class c"
| "isArray v = False"

fun array_length :: "jsval \<Rightarrow> nat" where
  "array_length (VObj a c ps) = class_length c"
| "array_length v = 0"

fun ref_path :: "jsval \<Rightarrow> string" where
  "ref_path (VRef p c) = p"
| "ref_path v = []"

fun ref_converter :: "jsval \<Rightarrow> converter option" where
  "ref_converter (VRef p c) = c"
| "ref_converter v = None"

text \<open>\<open>ref.withConverter(converter)\<close> of the store's client: a reference to the same
  path that decodes with the given adapter.\<close>

fun withConverter :: "jsval \<Rightarrow> converter \<Rightarrow> jsval" where
  "withConverter (VRef p c) cv = VRef p (Some cv)"
| "withConverter v cv = v"

section \<open>Firestore: extracting references\<close>

text \<open>An entry of the subscriptions registry; \<open>sub_data\<close> is what its \<open>data()\<close>
  returns during the call.\<close>

record sub =
  sub_path :: string
  sub_data :: jsval

record options =
  opt_converter :: converter

type_synonym subs = "(string \<times> sub) list"

text \<open>The registry object \<open>subs\<close> given to \<open>extractRefs\<close>: its own entries, and
  whether it has \<open>Object.prototype\<close> as prototype (as an object literal has; an object
  made by \<open>Object.create(null)\<close> has none).\<close>

record registry =
  reg_subs :: subs
  reg_proto :: bool

text \<open>\<open>refSubKey in subs\<close>.\<close>

definition in_registry :: "host \<Rightarrow> registry \<Rightarrow> string \<Rightarrow> bool" where
  "in_registry h reg k =
     (map_of (reg_subs reg) k \<noteq> None \<or> (reg_proto reg \<and> proto_member h ClsPlain k \<noteq> None))"

text \<open>The reduction of lines 55-59: for every key of \<open>subs\<close>, in order,
  \<open>resultSubs[sub.path] = sub.data()\<close>. The result lists the own properties of the
  index, which starts as \<open>{}\<close>.\<close>

definition subsByPath :: "subs \<Rightarrow> (string \<times> jsval) list" where
  "subsByPath sbs =
     fold (\<lambda>subKey resultSubs.
             case map_of sbs subKey of
               Some s \<Rightarrow> AList.update (sub_path s) (sub_data s) resultSubs
             | None \<Rightarrow> resultSubs)
          (map fst sbs) []"

text \<open>The loop of lines 112-117 over the indices of the array \<open>ref\<close>, writing into the
  new array: \<open>if (newRef && newRef.path in subsByPath) data[key][i] = subsByPath[newRef.path]\<close>.
  The conversion of \<open>newRef.path\<close> to a key can throw, which ends the call.\<close>

fun fillLoop :: "host \<Rightarrow> (string \<times> jsval) list \<Rightarrow> jsval \<Rightarrow> nat list \<Rightarrow> jsval \<Rightarrow> error + jsval" where
  "fillLoop h byPath ref [] d = Inr d"
| "fillLoop h byPath ref (i # rest) d =
     (let newRef = get_prop h ref (Idx i) in
      if truthy newRef then
        (case to_key h (get_prop h newRef (Name ''path'')) of
           None \<Rightarrow> Inl TypeError
         | Some k \<Rightarrow>
             fillLoop h byPath ref rest
               (if has_key h byPath k then set_prop d (Idx i) (read_key h byPath k) else d))
      else fillLoop h byPath ref rest d)"

definition fillExisting :: "host \<Rightarrow> (string \<times> jsval) list \<Rightarrow> jsval \<Rightarrow> jsval \<Rightarrow> error + jsval" where
  "fillExisting h byPath ref arr = fillLoop h byPath ref [0..<array_length ref] arr"

text \<open>The non-enumerable own properties of \<open>doc\<close> are defined on \<open>data\<close> with
  their descriptors (lines 72-77).\<close>

definition copy_hidden :: "jsval \<Rightarrow> jsval \<Rightarrow> jsval" where
  "copy_hidden doc data =
     fold (\<lambda>p d. if \<not> enumerable (fst (snd p)) then define_property d (fst p) (snd p) else d)
          (own_props doc) data"

text \<open>
  The old document of a call is either a value the walker only reads, or the output
  container of the same call. The second case comes from line 119,
  \<open>recursiveExtract(ref, oldDoc[key] || data[key], ...)\<close>: when \<open>oldDoc[key]\<close> is
  falsy the new array \<open>data[key]\<close> is passed both as old document and as output, so
  that every later read of the old document sees what the output holds at that moment.
  Inside such a call the old document stays the output for nested containers too, because
  \<open>data[key]\<close> is assigned the new container before \<open>oldDoc[key]\<close> is read.
\<close>

datatype old_doc = Old jsval | SameAsData

text \<open>The object of \<open>oldDoc = oldDoc || {}\<close> when \<open>oldDoc\<close> is falsy. It is only
  read, so its identity is never observed.\<close>

definition empty_object :: jsval where
  "empty_object = VObj 0 ClsPlain []"

text \<open>\<open>oldDoc[key]\<close> after \<open>oldDoc = oldDoc || {}\<close>.\<close>

fun old_field :: "host \<Rightarrow> old_doc \<Rightarrow> jsval \<Rightarrow> pkey \<Rightarrow> jsval" where
  "old_field h (Old v) data key = get_prop h (if truthy v then v else empty_object) key"
| "old_field h SameAsData data key = get_prop h data key"

record ctx =
  c_host :: host
  c_subs :: registry
  c_byPath :: "(string \<times> jsval) list"
  c_converter :: converter

text \<open>
  The state a call works on: the output container \<open>data\<close>, the reference map
  \<open>refs\<close> (keys in insertion order), and the next free object identity. A nested
  container is stored in its parent when its own walk is complete; the source stores it
  first and fills it in place, which is the same object in the end, since the parent is
  not read under that key in between. A call ends with the state, or with the error the
  host has thrown.
\<close>

type_synonym walk_state = "jsval \<times> (string \<times> jsval) list \<times> nat"

fun entries_size :: "(pkey \<times> jsval) list \<Rightarrow> nat" where
  "entries_size [] = 0"
| "entries_size (e # es) = Suc (size (snd e)) + entries_size es"

function recursiveExtract :: "ctx \<Rightarrow> jsval \<Rightarrow> old_doc \<Rightarrow> string \<Rightarrow> walk_state \<Rightarrow> error + walk_state"
  and extractKeys :: "ctx \<Rightarrow> (pkey \<times> jsval) list \<Rightarrow> old_doc \<Rightarrow> string \<Rightarrow> walk_state \<Rightarrow> error + walk_state"
  and extractField :: "ctx \<Rightarrow> pkey \<Rightarrow> jsval \<Rightarrow> old_doc \<Rightarrow> string \<Rightarrow> walk_state \<Rightarrow> error + walk_state"
where
  "recursiveExtract c doc old path (data, refs, n) =
     extractKeys c (for_in doc) old path (copy_hidden doc data, refs, n)"
| "extractKeys c [] old path s = Inr s"
| "extractKeys c (e # rest) old path s =
     (case extractField c (fst e) (snd e) old path s of
        Inl err \<Rightarrow> Inl err
      | Inr s' \<Rightarrow> extractKeys c rest old path s')"
| "extractField c key ref old path (data, refs, n) =
     (if ref = VUndefined \<or> ref = VNull \<or> is_opaque ref then
        Inr (set_prop data key ref, refs, n)
      else if isDocumentRef ref then
        (let refSubKey = path @ key_str key in
           Inr (set_prop data key
                  (if in_registry (c_host c) (c_subs c) refSubKey
                   then old_field (c_host c) old data key
                   else VStr (ref_path ref)),
                AList.update refSubKey
                  (if ref_converter ref \<noteq> None then ref else withConverter ref (c_converter c))
                  refs,
                n))
      else if isArray ref then
        (case fillExisting (c_host c) (c_byPath c) ref (VObj n (ClsArray (array_length ref)) []) of
           Inl err \<Rightarrow> Inl err
         | Inr arr \<Rightarrow>
             (case recursiveExtract c ref
                     (case old of
                        SameAsData \<Rightarrow> SameAsData
                      | Old w \<Rightarrow> if truthy (old_field (c_host c) old data key)
                                then Old (old_field (c_host c) old data key) else SameAsData)
                     (path @ key_str key @ ''.'') (arr, refs, Suc n) of
                Inl err \<Rightarrow> Inl err
              | Inr r \<Rightarrow> Inr (set_prop data key (fst r), snd r)))
      else if isObject ref then
        (case recursiveExtract c ref
                (case old of
                   SameAsData \<Rightarrow> SameAsData
                 | Old w \<Rightarrow> Old (old_field (c_host c) old data key))
                (path @ key_str key @ ''.'') (VObj n ClsPlain [], refs, Suc n) of
           Inl err \<Rightarrow> Inl err
         | Inr r \<Rightarrow> Inr (set_prop data key (fst r), snd r))
      else Inr (set_prop data key ref, refs, n))"
  by pat_completeness auto
termination
proof -
  have stored: "entries_size (map (\<lambda>p. (fst p, snd (snd p))) (filter (\<lambda>p. enumerable (fst (snd p))) ps))
          \<le> size_list (size_prod (\<lambda>x. 0) (size_prod (\<lambda>x. 0) size)) ps" for ps :: props
    by (induction ps) auto
  have visited: "entries_size (for_in v) \<le> size v" for v
    using stored by (cases v) (simp_all add: le_SucI)
  show ?thesis
    by (relation "measure (\<lambda>x. case x of
          Inl (c, doc, old, path, s) \<Rightarrow> 3 * size doc + 2
        | Inr (Inl (c, es, old, path, s)) \<Rightarrow> 3 * entries_size es + 1
        | Inr (Inr (c, key, ref, old, path, s)) \<Rightarrow> 3 * size ref + 3)")
       (use visited in \<open>auto simp: le_imp_less_Suc\<close>)
qed

declare extractField.simps [simp del]
declare recursiveExtract.simps [simp del]

text \<open>\<open>extractRefs(doc, oldDoc, subs, options)\<close>; the last argument is the next free
  object identity, returned updated.\<close>

definition extractRefs ::
  "host \<Rightarrow> jsval \<Rightarrow> jsval \<Rightarrow> registry \<Rightarrow> options \<Rightarrow> nat
     \<Rightarrow> error + ((jsval \<times> (string \<times> jsval) list) \<times> nat)" where
  "extractRefs h doc oldDoc reg opts n =
     (if \<not> isPOJO doc then Inr ((doc, []), n)
      else
        (case recursiveExtract
                \<lparr>c_host = h, c_subs = reg, c_byPath = subsByPath (reg_subs reg),
                 c_converter = opt_converter opts\<rparr>
                doc (Old oldDoc) [] (VObj n ClsPlain [], [], Suc n) of
           Inl err \<Rightarrow> Inl err
         | Inr r \<Rightarrow> Inr ((fst r, fst (snd r)), snd (snd r))))"

section \<open>Realtime database: records from snapshots\<close>

record snapshot =
  snap_exists :: bool
  snap_val :: jsval
  snap_key :: jsval
  snap_priority :: jsval
  snap_ref :: jsval
  snap_size :: jsval

text \<open>The four metadata fields, in the order of the source.\<close>

definition metadata :: "snapshot \<Rightarrow> (pkey \<times> jsval) list" where
  "metadata snapshot =
     [(Name ''.key'', snap_key snapshot),
      (Name ''.priority'', snap_priority snapshot),
      (Name ''.ref'', snap_ref snapshot),
      (Name ''.size'', snap_size snapshot)]"

text \<open>\<open>Object.defineProperties(value, {k: {value: v}, ...})\<close>: it returns \<open>value\<close>
  itself, with the properties defined on it.\<close>

definition defineProperties :: "jsval \<Rightarrow> (pkey \<times> jsval) list \<Rightarrow> jsval" where
  "defineProperties obj kvs = fold (\<lambda>kv d. define_property d (fst kv) (defined_attrs, snd kv)) kvs obj"

definition createRecordFromDatabaseSnapshot :: "snapshot \<Rightarrow> nat \<Rightarrow> jsval \<times> nat" where
  "createRecordFromDatabaseSnapshot snapshot n =
     (if \<not> snap_exists snapshot then (VNull, n)
      else
        (let val = snap_val snapshot in
           if isObject val then (defineProperties val (metadata snapshot), n)
           else
             (VObj n ClsPlain
                ((Name ''$value'', assigned_attrs, val) #
                 map (\<lambda>kv. (fst kv, assigned_attrs, snd kv)) (metadata snapshot)),
              Suc n)))"

section \<open>The walk when no conversion fails\<close>

text \<open>
  The only failing step of a call is the conversion of \<open>newRef.path\<close> to a key in the
  loop that pre-fills a new array. The functions of this section are the walker with that
  step taken as succeeding: \<open>resolved_at\<close> is what the loop finds for one index,
  \<open>fill_all\<close> the loop, and \<open>walkDoc\<close>, \<open>walkKeys\<close>, \<open>walkField\<close> follow
  \<open>recursiveExtract\<close>, \<open>extractKeys\<close>, \<open>extractField\<close>. They are shown below to
  give the result of the walker whenever the walker returns one, and are used to reason
  about that result.
\<close>

definition resolved_at :: "host \<Rightarrow> (string \<times> jsval) list \<Rightarrow> jsval \<Rightarrow> nat \<Rightarrow> jsval option" where
  "resolved_at h byPath ref i =
     (if truthy (get_prop h ref (Idx i)) then
        (case to_key h (get_prop h (get_prop h ref (Idx i)) (Name ''path'')) of
           Some k \<Rightarrow> if has_key h byPath k then Some (read_key h byPath k) else None
         | None \<Rightarrow> None)
      else None)"

definition fill_step :: "host \<Rightarrow> (string \<times> jsval) list \<Rightarrow> jsval \<Rightarrow> nat \<Rightarrow> jsval \<Rightarrow> jsval" where
  "fill_step h byPath ref i d =
     (case resolved_at h byPath ref i of Some r \<Rightarrow> set_prop d (Idx i) r | None \<Rightarrow> d)"

definition fill_all :: "host \<Rightarrow> (string \<times> jsval) list \<Rightarrow> jsval \<Rightarrow> jsval \<Rightarrow> jsval" where
  "fill_all h byPath ref arr = fold (fill_step h byPath ref) [0..<array_length ref] arr"

function walkDoc :: "ctx \<Rightarrow> jsval \<Rightarrow> old_doc \<Rightarrow> string \<Rightarrow> walk_state \<Rightarrow> walk_state"
  and walkKeys :: "ctx \<Rightarrow> (pkey \<times> jsval) list \<Rightarrow> old_doc \<Rightarrow> string \<Rightarrow> walk_state \<Rightarrow> walk_state"
  and walkField :: "ctx \<Rightarrow> pkey \<Rightarrow> jsval \<Rightarrow> old_doc \<Rightarrow> string \<Rightarrow> walk_state \<Rightarrow> walk_state"
where
  "walkDoc c doc old path (data, refs, n) =
     walkKeys c (for_in doc) old path (copy_hidden doc data, refs, n)"
| "walkKeys c [] old path s = s"
| "walkKeys c (e # rest) old path s =
     walkKeys c rest old path (walkField c (fst e) (snd e) old path s)"
| "walkField c key ref old path (data, refs, n) =
     (if ref = VUndefined \<or> ref = VNull \<or> is_opaque ref then
        (set_prop data key ref, refs, n)
      else if isDocumentRef ref then
        (let refSubKey = path @ key_str key in
           (set_prop data key
              (if in_registry (c_host c) (c_subs c) refSubKey
               then old_field (c_host c) old data key
               else VStr (ref_path ref)),
            AList.update refSubKey
              (if ref_converter ref \<noteq> None then ref else withConverter ref (c_converter c))
              refs,
            n))
      else if isArray ref then
        (let arr = fill_all (c_host c) (c_byPath c) ref (VObj n (ClsArray (array_length ref)) []);
             old' = (case old of
                       SameAsData \<Rightarrow> SameAsData
                     | Old w \<Rightarrow> if truthy (old_field (c_host c) old data key)
                               then Old (old_field (c_host c) old data key) else SameAsData);
             r = walkDoc c ref old' (path @ key_str key @ ''.'') (arr, refs, Suc n)
         in (set_prop data key (fst r), snd r))
      else if isObject ref then
        (let old' = (case old of
                       SameAsData \<Rightarrow> SameAsData
                     | Old w \<Rightarrow> Old (old_field (c_host c) old data key));
             r = walkDoc c ref old' (path @ key_str key @ ''.'')
                   (VObj n ClsPlain [], refs, Suc n)
         in (set_prop data key (fst r), snd r))
      else (set_prop data key ref, refs, n))"
  by pat_completeness auto
termination
proof -
  have stored: "entries_size (map (\<lambda>p. (fst p, snd (snd p))) (filter (\<lambda>p. enumerable (fst (snd p))) ps))
          \<le> size_list (size_prod (\<lambda>x. 0) (size_prod (\<lambda>x. 0) size)) ps" for ps :: props
    by (induction ps) auto
  have visited: "entries_size (for_in v) \<le> size v" for v
    using stored by (cases v) (simp_all add: le_SucI)
  show ?thesis
    by (relation "measure (\<lambda>x. case x of
          Inl (c, doc, old, path, s) \<Rightarrow> 3 * size doc + 2
        | Inr (Inl (c, es, old, path, s)) \<Rightarrow> 3 * entries_size es + 1
        | Inr (Inr (c, key, ref, old, path, s)) \<Rightarrow> 3 * size ref + 3)")
       (use visited in \<open>auto simp: le_imp_less_Suc\<close>)
qed

declare walkField.simps [simp del]
declare walkDoc.simps [simp del]

section \<open>Predicates used by the properties\<close>

text \<open>An object of the host has each key once; an array has its indices below its length
  and keeps its length outside its stored properties.\<close>

fun array_key_ok :: "obj_class \<Rightarrow> pkey \<Rightarrow> bool" where
  "array_key_ok (ClsArray n) (Idx i) = (i < n)"
| "array_key_ok (ClsArray n) (Name s) = (s \<noteq> ''length'')"
| "array_key_ok ClsPlain k = True"

fun well_formed :: "jsval \<Rightarrow> bool" where
  "well_formed (VObj a c ps) =
     (distinct (map fst ps) \<and> (\<forall>p \<in> set ps. array_key_ok c (fst p)) \<and> (\<forall>p \<in> set ps. well_formed (snd (snd p))))"
| "well_formed VUndefined = True"
| "well_formed VNull = True"
| "well_formed (VBool b) = True"
| "well_formed (VNum i) = True"
| "well_formed (VStr s) = True"
| "well_formed (VOpaque k s) = True"
| "well_formed (VRef p c) = True"
| "well_formed (VFun f) = True"

text \<open>Deep equality of two values as data: equal primitives and leaves; for objects the
  same class (and length), the same enumerable keys, and deep-equal values under each.
  Identities, descriptors and hidden properties are not compared.\<close>

fun deep_equal :: "host \<Rightarrow> jsval \<Rightarrow> jsval \<Rightarrow> bool" where
  "deep_equal h (VObj a c ps) w =
     (class_of w = Some c \<and>
      fst ` set (for_in (VObj a c ps)) = fst ` set (for_in w) \<and>
      (\<forall>p \<in> set ps. enumerable (fst (snd p)) \<longrightarrow> deep_equal h (snd (snd p)) (get_prop h w (fst p))))"
| "deep_equal h VUndefined w = (w = VUndefined)"
| "deep_equal h VNull w = (w = VNull)"
| "deep_equal h (VBool b) w = (w = VBool b)"
| "deep_equal h (VNum i) w = (w = VNum i)"
| "deep_equal h (VStr s) w = (w = VStr s)"
| "deep_equal h (VOpaque k s) w = (w = VOpaque k s)"
| "deep_equal h (VRef p c) w = (w = VRef p c)"
| "deep_equal h (VFun f) w = (w = VFun f)"

text \<open>Every key of the object occurs once among its stored properties.\<close>

definition distinct_keys :: "jsval \<Rightarrow> bool" where
  "distinct_keys v = distinct (map fst (props_of v))"

text \<open>No raw reference occurs in the data tree of the value: the value is not a
  reference, and none is reached through enumerable properties.\<close>

fun shows_no_reference :: "jsval \<Rightarrow> bool" where
  "shows_no_reference (VObj a c ps) =
     (\<forall>p \<in> set ps. enumerable (fst (snd p)) \<longrightarrow> shows_no_reference (snd (snd p)))"
| "shows_no_reference (VRef p c) = False"
| "shows_no_reference VUndefined = True"
| "shows_no_reference VNull = True"
| "shows_no_reference (VBool b) = True"
| "shows_no_reference (VNum i) = True"
| "shows_no_reference (VStr s) = True"
| "shows_no_reference (VOpaque k s) = True"
| "shows_no_reference (VFun f) = True"

definition props_show_no_reference :: "props \<Rightarrow> bool" where
  "props_show_no_reference ps =
     (\<forall>p \<in> set ps. enumerable (fst (snd p)) \<longrightarrow> shows_no_reference (snd (snd p)))"

text \<open>The value an enumeration of the object finds under the key, if it finds the key.\<close>

definition enum_val :: "jsval \<Rightarrow> pkey \<Rightarrow> jsval option" where
  "enum_val d k = (case get_own d k of
                     Some e \<Rightarrow> if enumerable (fst e) then Some (snd e) else None
                   | None \<Rightarrow> None)"

text \<open>The old document of a call is a well-formed value.\<close>

fun old_wf :: "old_doc \<Rightarrow> bool" where
  "old_wf (Old w) = well_formed w"
| "old_wf SameAsData = True"

text \<open>The conversions of the pre-fill loop over the array \<open>ref\<close> all succeed: every
  truthy element has a \<open>path\<close> that the host converts to a key.\<close>

definition paths_convert :: "host \<Rightarrow> jsval \<Rightarrow> bool" where
  "paths_convert h ref =
     list_all (\<lambda>i. truthy (get_prop h ref (Idx i)) \<longrightarrow>
                     to_key h (get_prop h (get_prop h ref (Idx i)) (Name ''path'')) \<noteq> None)
              [0..<array_length ref]"

text \<open>The same for every array the walker reaches in the value of a field.\<close>

fun convertible :: "host \<Rightarrow> jsval \<Rightarrow> bool" where
  "convertible h (VObj a c ps) =
     ((is_array_class c \<longrightarrow> paths_convert h (VObj a c ps)) \<and>
      (\<forall>p \<in> set ps. enumerable (fst (snd p)) \<longrightarrow> convertible h (snd (snd p))))"
| "convertible h v = True"









section \<open>A sample host\<close>

text \<open>
  A host for the examples. Records inherit the function members of
  \<open>Object.prototype\<close>, arrays those of \<open>Array.prototype\<close> first. For the values that
  are neither records nor arrays the sample gives the members of \<open>Object.prototype\<close>
  only (what the prototype of the value's own kind adds or replaces is left out). The
  conversion of an object to a key follows \<open>OrdinaryToPrimitive\<close> for objects that
  store no function under \<open>toString\<close>, \<open>valueOf\<close> or \<open>join\<close>: with the inherited
  \<open>toString\<close> a record gives \<open>[object Object]\<close> and an array the strings of its
  elements joined by commas; an object that stores a value other than a function under
  \<open>toString\<close> has no method that returns a primitive, and the conversion throws. (A
  function stored under one of these names would be run by the host; the sample reports
  the conversion as failing there.)
\<close>

definition object_members :: "string list" where
  "object_members =
     [''constructor'', ''hasOwnProperty'', ''isPrototypeOf'', ''propertyIsEnumerable'',
      ''toLocaleString'', ''toString'', ''valueOf'']"

definition array_members :: "string list" where
  "array_members =
     [''constructor'', ''at'', ''concat'', ''copyWithin'', ''entries'', ''every'', ''fill'',
      ''filter'', ''find'', ''findIndex'', ''findLast'', ''findLastIndex'', ''flat'',
      ''flatMap'', ''forEach'', ''includes'', ''indexOf'', ''join'', ''keys'',
      ''lastIndexOf'', ''map'', ''pop'', ''push'', ''reduce'', ''reduceRight'', ''reverse'',
      ''shift'', ''slice'', ''some'', ''sort'', ''splice'', ''toLocaleString'', ''toString'',
      ''unshift'', ''values'']"

definition ex_proto_member :: "obj_class \<Rightarrow> string \<Rightarrow> prim option" where
  "ex_proto_member c s =
     (if is_array_class c \<and> s \<in> set array_members then
        Some (PFun (if s = ''constructor'' then ''Array'' else ''Array.prototype.'' @ s))
      else if s \<in> set object_members then
        Some (PFun (if s = ''constructor'' then ''Object'' else ''Object.prototype.'' @ s))
      else None)"

definition ex_foreign_prop :: "jsval \<Rightarrow> pkey \<Rightarrow> prim" where
  "ex_foreign_prop v k =
     (case k of
        Idx i \<Rightarrow> PUndefined
      | Name s \<Rightarrow> if s \<in> set object_members then PFun (''Object.prototype.'' @ s) else PUndefined)"

fun join_commas :: "string list \<Rightarrow> string" where
  "join_commas [] = []"
| "join_commas [s] = s"
| "join_commas (s # t # ss) = s @ CHR '','' # join_commas (t # ss)"

function ex_string :: "jsval \<Rightarrow> string option" where
  "ex_string VUndefined = Some ''undefined''"
| "ex_string VNull = Some ''null''"
| "ex_string (VBool b) = Some (if b then ''true'' else ''false'')"
| "ex_string (VNum i) = Some (show_int i)"
| "ex_string (VStr s) = Some s"
| "ex_string (VOpaque k s) = Some s"
| "ex_string (VRef p c) = Some ''[object Object]''"
| "ex_string (VFun f) = Some (''function '' @ f @ ''() { [native code] }'')"
| "ex_string (VObj a c ps) =
     (case map_of ps (Name ''toString'') of
        Some e \<Rightarrow> None
      | None \<Rightarrow>
          (case c of
             ClsPlain \<Rightarrow> Some ''[object Object]''
           | ClsArray n \<Rightarrow>
               (case map_of ps (Name ''join'') of
                  Some j \<Rightarrow> (case snd j of VFun f \<Rightarrow> None | _ \<Rightarrow> Some ''[object Array]'')
                | None \<Rightarrow>
                    map_option join_commas
                      (those (map (\<lambda>i. case map_of ps (Idx i) of
                                          None \<Rightarrow> Some []
                                        | Some e \<Rightarrow>
                                            if snd e = VUndefined \<or> snd e = VNull then Some []
                                            else ex_string (snd e))
                                   [0..<n])))))"
  by pat_completeness auto
termination
proof -
  have smaller: "map_of ps k = Some e \<Longrightarrow>
      size (snd e) < Suc (size_list (size_prod (\<lambda>x. 0) (size_prod (\<lambda>x. 0) size)) ps)"
    for ps :: props and k e
    by (induction ps) (auto split: if_splits)
  show ?thesis
    by (relation "measure size") (auto dest: smaller)
qed

definition ex_host :: host where
  "ex_host = \<lparr>proto_member = ex_proto_member, foreign_prop = ex_foreign_prop,
              object_key = ex_string\<rparr>"

section \<open>Example documents\<close>

definition ex_ref :: jsval where
  "ex_ref = VRef ''users/1'' None"

definition ex_bob :: jsval where
  "ex_bob = VObj 2 ClsPlain [(Name ''name'', assigned_attrs, VStr ''bob'')]"

text \<open>\<open>{ name: "a", owner: <ref to users/1> }\<close> with a hidden \<open>.id\<close>.\<close>

definition ex_doc :: jsval where
  "ex_doc = VObj 1 ClsPlain
     [(Name ''name'', assigned_attrs, VStr ''a''),
      (Name ''owner'', assigned_attrs, ex_ref),
      (Name ''.id'', defined_attrs, VStr ''doc1'')]"

text \<open>A registry with one subscription, at the key \<open>owner\<close>, written as an object
  literal.\<close>

definition ex_subs :: subs where
  "ex_subs = [(''owner'', \<lparr>sub_path = ''users/1'', sub_data = ex_bob\<rparr>)]"

definition ex_registry :: "subs \<Rightarrow> registry" where
  "ex_registry sbs = \<lparr>reg_subs = sbs, reg_proto = True\<rparr>"

definition ex_ctx :: "subs \<Rightarrow> ctx" where
  "ex_ctx sbs = \<lparr>c_host = ex_host, c_subs = ex_registry sbs, c_byPath = subsByPath sbs,
                 c_converter = 7\<rparr>"

definition ex_opts :: options where
  "ex_opts = \<lparr>opt_converter = 7\<rparr>"

text \<open>An array whose element 1 is a plain object with a \<open>path\<close> field, and a hole at 0;
  and a document that holds it.\<close>

definition ex_array :: jsval where
  "ex_array = VObj 3 (ClsArray 3)
     [(Idx 1, assigned_attrs, VObj 4 ClsPlain [(Name ''path'', assigned_attrs, VStr ''users/1'')]),
      (Idx 2, assigned_attrs, VNum 5)]"

definition ex_array_doc :: jsval where
  "ex_array_doc = VObj 6 ClsPlain [(Name ''a'', assigned_attrs, ex_array)]"

definition ex_snapshot :: "jsval \<Rightarrow> snapshot" where
  "ex_snapshot v =
     \<lparr>snap_exists = True, snap_val = v, snap_key = VStr ''ada'', snap_priority = VNull,
      snap_ref = VStr ''/users/ada'', snap_size = VNum 1\<rparr>"

text \<open>\<open>{ a: [7, <hole>, <ref to users/1>] }\<close> and a registry with the subscription
  of the reference in the array.\<close>

definition ex_list :: jsval where
  "ex_list = VObj 21 (ClsArray 3) [(Idx 0, assigned_attrs, VNum 7), (Idx 2, assigned_attrs, ex_ref)]"

definition ex_list_doc :: jsval where
  "ex_list_doc = VObj 20 ClsPlain [(Name ''a'', assigned_attrs, ex_list)]"

definition ex_subs_list :: subs where
  "ex_subs_list = [(''a.2'', \<lparr>sub_path = ''users/1'', sub_data = ex_bob\<rparr>)]"

text \<open>A document without references:
  \<open>{ name: "a", tags: ["x", <hole>, "y"], nested: { n: 1 } }\<close> with a hidden \<open>.id\<close>.\<close>

definition ex_plain_doc :: jsval where
  "ex_plain_doc = VObj 30 ClsPlain
     [(Name ''name'', assigned_attrs, VStr ''a''),
      (Name ''tags'', assigned_attrs,
         VObj 31 (ClsArray 3) [(Idx 0, assigned_attrs, VStr ''x''), (Idx 2, assigned_attrs, VStr ''y'')]),
      (Name ''nested'', assigned_attrs, VObj 32 ClsPlain [(Name ''n'', assigned_attrs, VNum 1)]),
      (Name ''.id'', defined_attrs, VStr ''doc1'')]"

text \<open>A document with a reference and a nested object: \<open>{ owner: <ref users/1>, nested: { n: 1 } }\<close>,
  and an old document whose \<open>owner\<close> holds the data of the subscription.\<close>

definition ex_mixed_doc :: jsval where
  "ex_mixed_doc = VObj 40 ClsPlain
     [(Name ''owner'', assigned_attrs, ex_ref),
      (Name ''nested'', assigned_attrs, VObj 41 ClsPlain [(Name ''n'', assigned_attrs, VNum 1)])]"

definition ex_old_doc :: jsval where
  "ex_old_doc = VObj 5 ClsPlain [(Name ''owner'', assigned_attrs, ex_bob)]"



text \<open>\<open>{ constructor: [<ref to users/1>] }\<close> and a registry with the subscription of the
  reference in the array.\<close>

definition ex_ctor_doc :: jsval where
  "ex_ctor_doc = VObj 52 ClsPlain
     [(Name ''constructor'', assigned_attrs, VObj 53 (ClsArray 1) [(Idx 0, assigned_attrs, ex_ref)])]"

definition ex_subs_ctor :: subs where
  "ex_subs_ctor = [(''constructor.0'', \<lparr>sub_path = ''users/1'', sub_data = ex_bob\<rparr>)]"

text \<open>A document without references whose array holds a record with a \<open>path\<close> that the
  host cannot convert to a key: \<open>{ a: [{ path: { toString: "x" } }] }\<close>.\<close>

definition ex_unkeyed_doc :: jsval where
  "ex_unkeyed_doc = VObj 60 ClsPlain
     [(Name ''a'', assigned_attrs,
         VObj 61 (ClsArray 1)
           [(Idx 0, assigned_attrs,
               VObj 62 ClsPlain
                 [(Name ''path'', assigned_attrs,
                     VObj 63 ClsPlain [(Name ''toString'', assigned_attrs, VStr ''x'')])])])]"


section \<open>Properties of the operations on objects and of the walk\<close>

subsection \<open>Property lists\<close>

lemma map_of_insert_prop:
  "map_of ps k = None \<Longrightarrow> map_of (insert_prop k e ps) = (map_of ps)(k \<mapsto> e)"
  by (induction ps) (auto simp: fun_upd_twist split: if_splits)

lemma map_of_insert_prop_other:
  "k' \<noteq> k \<Longrightarrow> map_of (insert_prop k e ps) k' = map_of ps k'"
  by (induction ps) auto

lemma keys_insert_prop: "fst ` set (insert_prop k e ps) = insert k (fst ` set ps)"
  by (induction ps) auto


lemma distinct_insert_prop:
  "k \<notin> fst ` set ps \<Longrightarrow> distinct (map fst (insert_prop k e ps)) = distinct (map fst ps)"
  by (induction ps) (auto simp: keys_insert_prop)

lemma update_in: "x \<in> set (AList.update k e ps) \<Longrightarrow> x = (k, e) \<or> x \<in> set ps"
  by (induction ps) (auto split: if_splits)

lemma get_own_empty: "get_own (VObj a c []) k = None"
  by (simp add: get_own_def)

subsection \<open>Assignment and definition of a property\<close>

lemma get_own_set_prop:
  "isObject d \<Longrightarrow>
   get_own (set_prop d k v) k' =
     (if k' = k then Some (case get_own d k of Some e \<Rightarrow> fst e | None \<Rightarrow> assigned_attrs, v)
      else get_own d k')"
  by (cases d) (auto simp: get_own_def update_conv' map_of_insert_prop map_of_insert_prop_other
                     split: option.splits)

lemma get_own_set_prop_other:
  "k' \<noteq> k \<Longrightarrow> get_own (set_prop d k v) k' = get_own d k'"
  by (cases d) (auto simp: get_own_def update_conv' map_of_insert_prop_other split: option.splits)

lemma isObject_set_prop [simp]: "isObject (set_prop d k v) = isObject d"
  by (cases d) auto

lemma oid_of_set_prop [simp]: "oid_of (set_prop d k v) = oid_of d"
  by (cases d) auto

lemma distinct_keys_set_prop [simp]: "distinct_keys (set_prop d k v) = distinct_keys d"
  by (cases d) (auto simp: distinct_keys_def distinct_insert_prop map_of_eq_None_iff update_keys
       dest: weak_map_of_SomeI map_of_SomeD split: option.splits)

lemma class_of_set_prop:
  "class_of d = Some c \<Longrightarrow> array_key_ok c k \<Longrightarrow> class_of (set_prop d k v) = Some c"
  by (cases d; cases c; cases k) (auto simp: max_def)

lemma get_own_define_property:
  assumes "class_of d = Some c" "array_key_ok c k"
  shows "get_own (define_property d k e) k' = (if k' = k then Some e else get_own d k')"
  using assms
  by (cases d; cases c; cases k)
     (auto simp: get_own_def update_conv' map_of_insert_prop map_of_insert_prop_other
           split: option.splits)

lemma class_of_define_property:
  "class_of d = Some c \<Longrightarrow> array_key_ok c k \<Longrightarrow> class_of (define_property d k e) = Some c"
  by (cases d; cases c; cases k) (auto simp: max_def)

lemma distinct_keys_define_property:
  "class_of d = Some c \<Longrightarrow> array_key_ok c k \<Longrightarrow> distinct_keys (define_property d k e) = distinct_keys d"
  by (cases d; cases c; cases k)
     (auto simp: distinct_keys_def distinct_insert_prop map_of_eq_None_iff update_keys
           dest: map_of_SomeD split: option.splits)

lemma oid_of_define_property [simp]: "oid_of (define_property d k e) = oid_of d"
  by (cases d) (auto split: jsval.splits)

lemma define_length_same:
  "class_of d = Some (ClsArray n) \<Longrightarrow> define_property d (Name ''length'') (at, VNum (int n)) = d"
  by (cases d) auto

lemma class_isObject: "class_of d = Some cl \<Longrightarrow> isObject d"
  by (cases d) auto

lemma array_class: "isArray v \<Longrightarrow> class_of v = Some (ClsArray (array_length v))"
  by (cases v; cases "the (class_of v)") auto

lemma plain_class: "isObject v \<Longrightarrow> \<not> isArray v \<Longrightarrow> class_of v = Some ClsPlain"
  by (cases v; cases "the (class_of v)") auto

lemma get_prop_eq:
  "class_of d = Some cl \<Longrightarrow> class_of d' = Some cl \<Longrightarrow> get_own d k = get_own d' k \<Longrightarrow>
   get_prop h d k = get_prop h d' k"
  by (cases d; cases d') (auto simp: get_own_def)

lemma get_prop_own:
  "get_own d k = Some (at, v) \<Longrightarrow> k \<noteq> Name ''length'' \<Longrightarrow> get_prop h d k = v"
  by (cases d) (auto simp: get_own_def)

lemma get_prop_own_ok:
  "class_of d = Some cl \<Longrightarrow> array_key_ok cl k \<Longrightarrow> get_own d k = Some e \<Longrightarrow> get_prop h d k = snd e"
  by (cases d; cases cl; cases k) (auto simp: get_own_def)

lemma get_prop_idx: "get_prop h d (Idx i) = (case get_own d (Idx i) of Some e \<Rightarrow> snd e | None \<Rightarrow> VUndefined)"
  if "isObject d"
  using that by (cases d) (auto simp: get_own_def split: option.splits)

lemma defineProperties_props:
  assumes "class_of d = Some cl" "distinct (map fst kvs)" "\<forall>kv \<in> set kvs. array_key_ok cl (fst kv)"
  shows "class_of (defineProperties d kvs) = Some cl \<and>
         oid_of (defineProperties d kvs) = oid_of d \<and>
         distinct_keys (defineProperties d kvs) = distinct_keys d \<and>
         (\<forall>k. get_own (defineProperties d kvs) k =
                (case map_of kvs k of Some v \<Rightarrow> Some (defined_attrs, v) | None \<Rightarrow> get_own d k))"
  using assms
proof (induction kvs arbitrary: d)
  case Nil
  then show ?case by (simp add: defineProperties_def)
next
  case (Cons kv kvs)
  let ?d = "define_property d (fst kv) (defined_attrs, snd kv)"
  have ok: "array_key_ok cl (fst kv)" using Cons.prems by simp
  have cls: "class_of ?d = Some cl"
    using Cons.prems(1) ok by (rule class_of_define_property)
  have ih: "class_of (defineProperties ?d kvs) = Some cl \<and>
         oid_of (defineProperties ?d kvs) = oid_of ?d \<and>
         distinct_keys (defineProperties ?d kvs) = distinct_keys ?d \<and>
         (\<forall>k. get_own (defineProperties ?d kvs) k =
                (case map_of kvs k of Some v \<Rightarrow> Some (defined_attrs, v) | None \<Rightarrow> get_own ?d k))"
    using Cons.prems cls by (intro Cons.IH) auto
  have unf: "defineProperties d (kv # kvs) = defineProperties ?d kvs"
    by (simp add: defineProperties_def)
  have none: "map_of kvs (fst kv) = None"
    using Cons.prems(2) by (auto simp: map_of_eq_None_iff)
  have g: "\<And>k. get_own ?d k = (if k = fst kv then Some (defined_attrs, snd kv) else get_own d k)"
    by (rule get_own_define_property [OF Cons.prems(1) ok])
  have dkd: "distinct_keys ?d = distinct_keys d"
    by (rule distinct_keys_define_property [OF Cons.prems(1) ok])
  have oid: "oid_of ?d = oid_of d" by simp
  show ?case
    unfolding unf using ih none g dkd oid
    by (auto split: option.splits)
qed

subsection \<open>Well-formed values and enumeration\<close>

lemma size_member:
  "p \<in> set ps \<Longrightarrow> size (snd (snd p)) < Suc (size_list (size_prod (\<lambda>x. 0) (size_prod (\<lambda>x. 0) size)) ps)"
  by (induction ps) auto

lemma wf_distinct_keys: "well_formed doc \<Longrightarrow> distinct_keys doc"
  by (cases doc) (auto simp: distinct_keys_def)

lemma wf_value: "well_formed doc \<Longrightarrow> (k, v) \<in> set (for_in doc) \<Longrightarrow> well_formed v"
  by (cases doc) auto

lemma wf_length_free:
  "well_formed d \<Longrightarrow> class_of d = Some cl \<Longrightarrow> is_array_class cl \<longrightarrow> get_own d (Name ''length'') = None"
  by (cases d; cases cl) (force simp: get_own_def map_of_eq_None_iff)+

lemma of_prim_leaf [simp]:
  "well_formed (of_prim m)" "shows_no_reference (of_prim m)" "\<not> isObject (of_prim m)"
  "\<not> isDocumentRef (of_prim m)" "deep_equal h (of_prim m) (of_prim m)"
  by (cases m; simp)+

lemma inherited_leaf:
  assumes "inherited h c k = Some m"
  shows "well_formed m" "shows_no_reference m" "\<not> isObject m" "deep_equal h' m m"
  using assms by (cases k; auto)+

lemma read_key_cases:
  "(\<exists>e \<in> set own. read_key h own k = snd e) \<or> (\<exists>m. read_key h own k = of_prim m)"
proof (cases "map_of own k")
  case None
  then show ?thesis
    by (cases "proto_member h ClsPlain k") (auto simp: read_key_def intro: exI [of _ PUndefined])
next
  case (Some v)
  then have "(k, v) \<in> set own" by (rule map_of_SomeD)
  then show ?thesis using Some by (force simp: read_key_def)
qed

lemma resolved_at_cases:
  assumes "resolved_at h byPath ref i = Some r"
  shows "(\<exists>e \<in> set byPath. r = snd e) \<or> (\<exists>m. r = of_prim m)"
proof -
  obtain k where "r = read_key h byPath k"
    using assms by (auto simp: resolved_at_def split: if_splits option.splits)
  then show ?thesis using read_key_cases [of byPath h k] by auto
qed

lemma wf_get_prop: "well_formed v \<Longrightarrow> well_formed (get_prop h v k)"
  by (cases v) (auto dest!: map_of_SomeD dest: inherited_leaf(1) split: option.splits pkey.splits)

lemma wf_empty_object [simp]: "well_formed empty_object"
  by (simp add: empty_object_def)

lemma size_value: "(k, v) \<in> set (for_in doc) \<Longrightarrow> size v < size doc"
  by (cases doc) (auto dest: size_member)

lemma for_in_iff:
  assumes "distinct_keys doc"
  shows "(k, v) \<in> set (for_in doc) \<longleftrightarrow> (\<exists>at. get_own doc k = Some (at, v) \<and> enumerable at)"
proof (cases doc)
  case (VObj a c ps)
  then have d: "distinct (map fst ps)" using assms by (simp add: distinct_keys_def)
  show ?thesis
    using VObj d by (auto simp: get_own_def image_iff) 
qed (simp_all add: get_own_def)

lemma distinct_for_in: "distinct_keys doc \<Longrightarrow> distinct (map fst (for_in doc))"
  by (cases doc) (auto simp: distinct_keys_def distinct_map_filter comp_def)

lemma for_in_key_ok:
  "well_formed doc \<Longrightarrow> class_of doc = Some cl \<Longrightarrow> e \<in> set (for_in doc) \<Longrightarrow> array_key_ok cl (fst e)"
  by (cases doc) auto

lemma for_in_keys_enum_val:
  assumes "distinct_keys d"
  shows "k \<in> fst ` set (for_in d) \<longleftrightarrow> enum_val d k \<noteq> None"
proof -
  have "k \<in> fst ` set (for_in d) \<longleftrightarrow> (\<exists>v at. get_own d k = Some (at, v) \<and> enumerable at)"
    using for_in_iff [OF assms, of k] by (force simp: image_iff)
  then show ?thesis by (auto simp: enum_val_def split: option.splits)
qed

subsection \<open>Copying the hidden properties\<close>

lemma copy_step_get_own:
  assumes "distinct (map fst qs)" "\<forall>q \<in> set qs. array_key_ok c (fst q)" "class_of d = Some c"
  shows "get_own (fold (\<lambda>p d. if \<not> enumerable (fst (snd p)) then define_property d (fst p) (snd p) else d) qs d) k
         = (case map_of qs k of
              Some e \<Rightarrow> if \<not> enumerable (fst e) then Some e else get_own d k
            | None \<Rightarrow> get_own d k)
         \<and> class_of (fold (\<lambda>p d. if \<not> enumerable (fst (snd p)) then define_property d (fst p) (snd p) else d) qs d) = Some c"
  using assms
proof (induction qs arbitrary: d)
  case Nil
  then show ?case by simp
next
  case (Cons q qs)
  let ?d' = "if \<not> enumerable (fst (snd q)) then define_property d (fst q) (snd q) else d"
  have cls: "class_of ?d' = Some c"
    using Cons.prems by (simp add: class_of_define_property)
  have ih: "get_own (fold (\<lambda>p d. if \<not> enumerable (fst (snd p)) then define_property d (fst p) (snd p) else d) qs ?d') k
         = (case map_of qs k of
              Some e \<Rightarrow> if \<not> enumerable (fst e) then Some e else get_own ?d' k
            | None \<Rightarrow> get_own ?d' k)
         \<and> class_of (fold (\<lambda>p d. if \<not> enumerable (fst (snd p)) then define_property d (fst p) (snd p) else d) qs ?d') = Some c"
    using Cons.prems cls by (intro Cons.IH) auto
  have none: "k = fst q \<Longrightarrow> map_of qs k = None"
    using Cons.prems(1) by (auto simp: map_of_eq_None_iff)
  have own: "get_own ?d' k = (if k = fst q \<and> \<not> enumerable (fst (snd q)) then Some (snd q) else get_own d k)"
    using Cons.prems by (auto simp: get_own_define_property)
  show ?case
    using ih none own by (cases q) (auto split: option.splits)
qed

lemma get_own_copy_hidden:
  assumes "well_formed doc" "class_of data = class_of doc" "isObject doc"
  shows "get_own (copy_hidden doc data) k
         = (case get_own doc k of
              Some e \<Rightarrow> if \<not> enumerable (fst e) then Some e else get_own data k
            | None \<Rightarrow> get_own data k)"
    and "class_of (copy_hidden doc data) = class_of doc"
proof -
  obtain a c ps where doc: "doc = VObj a c ps" using assms(3) by (cases doc) auto
  let ?f = "\<lambda>p d. if \<not> enumerable (fst (snd p)) then define_property d (fst p) (snd p) else d"
  have st: "get_own (fold ?f ps data) k
         = (case map_of ps k of
              Some e \<Rightarrow> if \<not> enumerable (fst e) then Some e else get_own data k
            | None \<Rightarrow> get_own data k)
         \<and> class_of (fold ?f ps data) = Some c"
    using assms doc by (intro copy_step_get_own) auto
  have same: "copy_hidden doc data = fold ?f ps data"
    using st doc by (cases c) (auto simp: copy_hidden_def length_attrs_def define_length_same)
  show "get_own (copy_hidden doc data) k
         = (case get_own doc k of
              Some e \<Rightarrow> if \<not> enumerable (fst e) then Some e else get_own data k
            | None \<Rightarrow> get_own data k)"
    using st same doc by (simp add: get_own_def)
  show "class_of (copy_hidden doc data) = class_of doc"
    using st same doc by simp
qed

lemma copy_step_distinct:
  assumes "\<forall>q \<in> set qs. array_key_ok c (fst q)" "class_of d = Some c"
  shows "distinct_keys (fold (\<lambda>p d. if \<not> enumerable (fst (snd p)) then define_property d (fst p) (snd p) else d) qs d)
           = distinct_keys d
         \<and> class_of (fold (\<lambda>p d. if \<not> enumerable (fst (snd p)) then define_property d (fst p) (snd p) else d) qs d) = Some c"
  using assms
  by (induction qs arbitrary: d)
     (auto simp: class_of_define_property distinct_keys_define_property)

lemma distinct_keys_copy_hidden:
  assumes "well_formed doc" "class_of data = class_of doc" "isObject doc"
  shows "distinct_keys (copy_hidden doc data) = distinct_keys data"
proof -
  obtain a c ps where doc: "doc = VObj a c ps" using assms(3) by (cases doc) auto
  let ?f = "\<lambda>p d. if \<not> enumerable (fst (snd p)) then define_property d (fst p) (snd p) else d"
  have st: "distinct_keys (fold ?f ps data) = distinct_keys data \<and> class_of (fold ?f ps data) = Some c"
    using assms doc by (intro copy_step_distinct) auto
  have same: "copy_hidden doc data = fold ?f ps data"
    using st doc by (cases c) (auto simp: copy_hidden_def length_attrs_def define_length_same)
  show ?thesis using st same by simp
qed

lemma oid_of_copy_hidden: "oid_of (copy_hidden doc data) = oid_of data"
proof -
  have "oid_of (fold (\<lambda>p d. if \<not> enumerable (fst (snd p)) then define_property d (fst p) (snd p) else d) qs data)
          = oid_of data" for qs
    by (induction qs arbitrary: data) auto
  then show ?thesis by (simp add: copy_hidden_def)
qed

subsection \<open>The pre-fill loop of arrays\<close>

lemma fill_fold_props:
  assumes "class_of d = Some (ClsArray len)" "m \<le> len"
  shows "class_of (fold (fill_step h byPath ref) [0..<m] d) = Some (ClsArray len) \<and>
         oid_of (fold (fill_step h byPath ref) [0..<m] d) = oid_of d \<and>
         distinct_keys (fold (fill_step h byPath ref) [0..<m] d) = distinct_keys d \<and>
         (\<forall>k. get_own (fold (fill_step h byPath ref) [0..<m] d) k =
               (case k of
                  Idx i \<Rightarrow>
                    (case (if i < m then resolved_at h byPath ref i else None) of
                       Some r \<Rightarrow> Some (case get_own d k of Some e \<Rightarrow> fst e | None \<Rightarrow> assigned_attrs, r)
                     | None \<Rightarrow> get_own d k)
                | Name s \<Rightarrow> get_own d k))"
  using assms(2)
proof (induction m)
  case 0
  then show ?case using assms(1) by (auto split: pkey.splits)
next
  case (Suc m)
  let ?d = "fold (fill_step h byPath ref) [0..<m] d"
  have ih: "class_of ?d = Some (ClsArray len)" "oid_of ?d = oid_of d"
    "distinct_keys ?d = distinct_keys d"
    "\<And>k. get_own ?d k =
               (case k of
                  Idx i \<Rightarrow>
                    (case (if i < m then resolved_at h byPath ref i else None) of
                       Some r \<Rightarrow> Some (case get_own d k of Some e \<Rightarrow> fst e | None \<Rightarrow> assigned_attrs, r)
                     | None \<Rightarrow> get_own d k)
                | Name s \<Rightarrow> get_own d k)"
    using Suc by auto
  have obj: "isObject ?d" using ih(1) by (cases ?d) auto
  have ok: "array_key_ok (ClsArray len) (Idx m)" using Suc.prems by simp
  have step: "fold (fill_step h byPath ref) [0..<Suc m] d = fill_step h byPath ref m ?d"
    by simp
  show ?case
    unfolding step
    by (cases "resolved_at h byPath ref m")
       (auto simp: fill_step_def ih class_of_set_prop [OF ih(1) ok] get_own_set_prop [OF obj]
                   less_Suc_eq
             split: pkey.splits option.splits)
qed

lemma fill_dom:
  assumes "isArray arr"
  shows "class_of (fill_all h byPath arr (VObj m (ClsArray (array_length arr)) [])) = class_of arr"
    and "get_own (fill_all h byPath arr (VObj m (ClsArray (array_length arr)) [])) k \<noteq> None
          \<Longrightarrow> get_own arr k \<noteq> None"
proof -
  let ?a = "VObj m (ClsArray (array_length arr)) []"
  have cls: "class_of ?a = Some (ClsArray (array_length arr))" by simp
  note p = fill_fold_props [OF cls order_refl, of h byPath arr]
  show "class_of (fill_all h byPath arr ?a) = class_of arr"
    using p assms by (cases arr; cases "the (class_of arr)") (auto simp: fill_all_def)
  assume "get_own (fill_all h byPath arr ?a) k \<noteq> None"
  then obtain i where i: "k = Idx i" "resolved_at h byPath arr i \<noteq> None"
    using p by (cases k) (auto simp: fill_all_def get_own_empty split: if_splits option.splits)
  then have "truthy (get_prop h arr (Idx i))"
    by (auto simp: resolved_at_def split: if_splits)
  then show "get_own arr k \<noteq> None"
    using i(1) assms by (cases arr) (auto simp: get_own_def split: option.splits if_splits)
qed

lemma get_own_filled:
  assumes "isArray arr" "i < array_length arr"
  shows "get_own (fill_all h byPath arr (VObj m (ClsArray (array_length arr)) [])) (Idx i)
           = map_option (Pair assigned_attrs) (resolved_at h byPath arr i)"
proof -
  have cls: "class_of (VObj m (ClsArray (array_length arr)) []) = Some (ClsArray (array_length arr))"
    by simp
  show ?thesis
    using fill_fold_props [OF cls order_refl, of h byPath arr] assms(2)
    by (simp add: fill_all_def get_own_empty split: option.splits)
qed

lemma fill_facts:
  assumes "isArray arr" "\<forall>e \<in> set byPath. well_formed (snd e)"
  shows "get_own (fill_all h byPath arr (VObj m (ClsArray (array_length arr)) [])) k
           = get_own (fill_all h byPath arr (VObj m' (ClsArray (array_length arr)) [])) k"
    and "distinct_keys (fill_all h byPath arr (VObj m (ClsArray (array_length arr)) []))"
    and "get_own (fill_all h byPath arr (VObj m (ClsArray (array_length arr)) [])) k = Some e
           \<Longrightarrow> well_formed (snd e)"
proof -
  have cls: "class_of (VObj x (ClsArray (array_length arr)) []) = Some (ClsArray (array_length arr))" for x
    by simp
  have p: "class_of (fill_all h byPath arr (VObj x (ClsArray (array_length arr)) [])) = Some (ClsArray (array_length arr)) \<and>
         distinct_keys (fill_all h byPath arr (VObj x (ClsArray (array_length arr)) [])) \<and>
         (\<forall>k. get_own (fill_all h byPath arr (VObj x (ClsArray (array_length arr)) [])) k =
               (case k of
                  Idx i \<Rightarrow>
                    (case (if i < array_length arr then resolved_at h byPath arr i else None) of
                       Some r \<Rightarrow> Some (assigned_attrs, r)
                     | None \<Rightarrow> None)
                | Name s \<Rightarrow> None))" for x
    using fill_fold_props [OF cls order_refl, where byPath = byPath and ref = arr and h = h, of x]
    by (auto simp: fill_all_def get_own_empty distinct_keys_def split: pkey.splits option.splits)
  show "get_own (fill_all h byPath arr (VObj m (ClsArray (array_length arr)) [])) k
           = get_own (fill_all h byPath arr (VObj m' (ClsArray (array_length arr)) [])) k"
    using p [of m] p [of m'] by simp
  show "distinct_keys (fill_all h byPath arr (VObj m (ClsArray (array_length arr)) []))"
    using p [of m] by simp
  assume "get_own (fill_all h byPath arr (VObj m (ClsArray (array_length arr)) [])) k = Some e"
  then obtain i where "resolved_at h byPath arr i = Some (snd e)"
    using p [of m]
    by (cases k) (auto split: if_splits option.splits)
  then show "well_formed (snd e)"
    using resolved_at_cases [of h byPath arr i "snd e"] assms(2) by auto
qed

lemma fill_shape:
  assumes "isArray arr"
  shows "distinct_keys (fill_all h byPath arr (VObj m (ClsArray (array_length arr)) []))"
    and "get_own (fill_all h byPath arr (VObj m (ClsArray (array_length arr)) [])) k = Some e
           \<Longrightarrow> fst e = assigned_attrs"
proof -
  have cls: "class_of (VObj m (ClsArray (array_length arr)) []) = Some (ClsArray (array_length arr))"
    by simp
  note p = fill_fold_props [OF cls order_refl, where byPath = byPath and ref = arr and h = h]
  show "distinct_keys (fill_all h byPath arr (VObj m (ClsArray (array_length arr)) []))"
    using p by (simp add: fill_all_def distinct_keys_def)
  assume "get_own (fill_all h byPath arr (VObj m (ClsArray (array_length arr)) [])) k = Some e"
  then show "fst e = assigned_attrs"
    using p by (cases k) (auto simp: fill_all_def get_own_empty split: if_splits option.splits)
qed

lemma oid_of_fill: "oid_of (fill_all h byPath arr d) = oid_of d"
proof -
  have "oid_of (fold (fill_step h byPath arr) xs d) = oid_of d" for xs
    by (induction xs arbitrary: d) (auto simp: fill_step_def split: option.splits)
  then show ?thesis by (simp add: fill_all_def)
qed

subsection \<open>The loop over the fields\<close>

lemma walkField_frame:
  "k' \<noteq> k \<Longrightarrow> get_own (fst (walkField c k v old path s)) k' = get_own (fst s) k'"
  by (cases s) (simp add: walkField.simps Let_def get_own_set_prop_other)

lemma walkField_isObject:
  "isObject (fst (walkField c k v old path s)) = isObject (fst s)"
  by (cases s) (simp add: walkField.simps Let_def)

lemma walkField_class:
  "class_of (fst s) = Some cl \<Longrightarrow> array_key_ok cl k \<Longrightarrow>
   class_of (fst (walkField c k v old path s)) = Some cl"
  by (cases s) (simp add: walkField.simps Let_def class_of_set_prop)

lemma walkField_distinct_keys:
  "distinct_keys (fst (walkField c k v old path s)) = distinct_keys (fst s)"
  by (cases s) (simp add: walkField.simps Let_def)

lemma walkField_dom:
  "isObject (fst s) \<Longrightarrow>
   (get_own (fst (walkField c k' v old path s)) k = None) = (get_own (fst s) k = None \<and> k \<noteq> k')"
  by (cases s) (simp add: walkField.simps Let_def get_own_set_prop)

lemma walkField_oid: "oid_of (fst (walkField c k v old path s)) = oid_of (fst s)"
  by (cases s) (simp add: walkField.simps Let_def)

lemma walkKeys_frame:
  "k \<notin> fst ` set es \<Longrightarrow> get_own (fst (walkKeys c es old path s)) k = get_own (fst s) k"
  by (induction es arbitrary: s) (auto simp: walkField_frame)

lemma walkKeys_isObject:
  "isObject (fst (walkKeys c es old path s)) = isObject (fst s)"
  by (induction es arbitrary: s) (auto simp: walkField_isObject)

lemma walkKeys_class:
  "class_of (fst s) = Some cl \<Longrightarrow> \<forall>e \<in> set es. array_key_ok cl (fst e) \<Longrightarrow>
   class_of (fst (walkKeys c es old path s)) = Some cl"
  by (induction es arbitrary: s) (auto simp: walkField_class)

lemma walkKeys_distinct_keys:
  "distinct_keys (fst (walkKeys c es old path s)) = distinct_keys (fst s)"
  by (induction es arbitrary: s) (auto simp: walkField_distinct_keys)

lemma walkKeys_dom:
  "isObject (fst s) \<Longrightarrow>
   (get_own (fst (walkKeys c es old path s)) k = None) = (get_own (fst s) k = None \<and> k \<notin> fst ` set es)"
  by (induction es arbitrary: s) (auto simp: walkField_dom walkField_isObject)

lemma walkKeys_oid: "oid_of (fst (walkKeys c es old path s)) = oid_of (fst s)"
  by (induction es arbitrary: s) (auto simp: walkField_oid)

lemma walkKeys_append:
  "walkKeys c (es @ fs) old path s = walkKeys c fs old path (walkKeys c es old path s)"
  by (induction es arbitrary: s) auto

lemma walkKeys_at_key:
  assumes "distinct (map fst es)" "es = es1 @ (k, v) # es2"
  shows "get_own (fst (walkKeys c es old path s)) k
         = get_own (fst (walkField c k v old path (walkKeys c es1 old path s))) k"
proof -
  have "k \<notin> fst ` set es2" using assms by auto
  then show ?thesis
    using assms(2) by (simp add: walkKeys_append walkKeys_frame)
qed

text \<open>The state in which the walk of \<open>doc\<close> reaches the field \<open>k\<close>.\<close>

lemma walk_reaches_field:
  assumes "well_formed doc" "class_of data = class_of doc" "(k, v) \<in> set (for_in doc)"
  obtains s where
    "get_own (fst (walkDoc c doc old path (data, refs, n))) k
       = get_own (fst (walkField c k v old path s)) k"
    "class_of (fst s) = class_of doc"
    "get_own (fst s) k = get_own data k"
proof -
  have dk: "distinct_keys doc" using assms(1) by (rule wf_distinct_keys)
  obtain cl where cl: "class_of doc = Some cl"
    using assms(3) by (cases doc) auto
  then have obj: "isObject doc" by (cases doc) auto
  obtain es1 es2 where es: "for_in doc = es1 @ (k, v) # es2"
    using assms(3) by (meson split_list)
  have dist: "distinct (map fst (for_in doc))" using dk by (rule distinct_for_in)
  let ?init = "(copy_hidden doc data, refs, n)"
  let ?mid = "walkKeys c es1 old path ?init"
  have k1: "k \<notin> fst ` set es1" using dist es by auto
  obtain at where at: "get_own doc k = Some (at, v)" "enumerable at"
    using assms(3) dk by (auto simp: for_in_iff)
  have c0: "class_of (fst ?init) = Some cl"
    using get_own_copy_hidden(2) [OF assms(1,2) obj] cl by simp
  have ok1: "\<forall>e \<in> set es1. array_key_ok cl (fst e)"
    using for_in_key_ok [OF assms(1) cl] es by auto
  have "get_own (fst (walkDoc c doc old path (data, refs, n))) k
          = get_own (fst (walkField c k v old path ?mid)) k"
    using walkKeys_at_key [OF dist es] by (simp add: walkDoc.simps)
  moreover have "class_of (fst ?mid) = class_of doc"
    using walkKeys_class [OF c0 ok1, of c old path] cl by simp
  moreover have "get_own (fst ?mid) k = get_own data k"
    using k1 at get_own_copy_hidden(1) [OF assms(1,2) obj, of k]
    by (simp add: walkKeys_frame)
  ultimately show ?thesis using that by blast
qed

lemma walkDoc_shape:
  assumes "well_formed doc" "class_of data = class_of doc" "isObject doc"
  shows "class_of (fst (walkDoc c doc old path (data, refs, n))) = class_of doc"
    and "(get_own (fst (walkDoc c doc old path (data, refs, n))) k = None)
           = (get_own data k = None \<and> get_own doc k = None)"
proof -
  obtain cl where cl: "class_of doc = Some cl" using assms(3) by (cases doc) auto
  have c0: "class_of (fst (copy_hidden doc data, refs, n)) = Some cl"
    using get_own_copy_hidden(2) [OF assms] cl by simp
  have ok: "\<forall>e \<in> set (for_in doc). array_key_ok cl (fst e)"
    using for_in_key_ok [OF assms(1) cl] by blast
  show "class_of (fst (walkDoc c doc old path (data, refs, n))) = class_of doc"
    using walkKeys_class [OF c0 ok, of c old path] cl by (simp add: walkDoc.simps)
  have obj: "isObject (fst (copy_hidden doc data, refs, n))"
    using c0 by (rule class_isObject)
  have dk: "distinct_keys doc" using assms(1) by (rule wf_distinct_keys)
  have keys: "k \<in> fst ` set (for_in doc) \<longleftrightarrow> (\<exists>at v. get_own doc k = Some (at, v) \<and> enumerable at)"
    using for_in_iff [OF dk, of k] by (force simp: image_iff)
  show "(get_own (fst (walkDoc c doc old path (data, refs, n))) k = None)
           = (get_own data k = None \<and> get_own doc k = None)"
    using walkKeys_dom [OF obj, of c "for_in doc" old path k] keys
          get_own_copy_hidden(1) [OF assms, of k]
    by (auto simp: walkDoc.simps split: option.splits)
qed

lemma walk_other_key:
  assumes "well_formed doc" "class_of data = class_of doc" "isObject doc" "k \<notin> fst ` set (for_in doc)"
  shows "enum_val (fst (walkDoc c doc old path (data, refs, n))) k
           = (if get_own doc k = None then enum_val data k else None)"
proof -
  have dk: "distinct_keys doc" using assms(1) by (rule wf_distinct_keys)
  have hid: "\<And>e. get_own doc k = Some e \<Longrightarrow> \<not> enumerable (fst e)"
    using assms(4) for_in_iff [OF dk, of k] by (force simp: image_iff)
  have "get_own (fst (walkDoc c doc old path (data, refs, n))) k = get_own (copy_hidden doc data) k"
    using assms(4) by (simp add: walkDoc.simps walkKeys_frame)
  then show ?thesis
    using get_own_copy_hidden(1) [OF assms(1,2,3), of k] hid
    by (auto simp: enum_val_def split: option.splits)
qed

lemma walk_distinct_keys:
  assumes "well_formed doc" "class_of data = class_of doc" "isObject doc"
  shows "distinct_keys (fst (walkDoc c doc old path (data, refs, n))) = distinct_keys data"
  using distinct_keys_copy_hidden [OF assms]
  by (simp add: walkDoc.simps walkKeys_distinct_keys)

lemma walk_oid: "oid_of (fst (walkDoc c doc old path (data, refs, n))) = oid_of data"
  by (simp add: walkDoc.simps walkKeys_oid oid_of_copy_hidden)

lemma walk_counter:
  shows "snd (snd s) \<le> snd (snd (walkDoc c doc old path s))"
    and "snd (snd s) \<le> snd (snd (walkKeys c es old path s))"
    and "snd (snd s) \<le> snd (snd (walkField c key ref old path s))"
proof (induction c doc old path s and c es old path s and c key ref old path s
       rule: walkDoc_walkKeys_walkField.induct)
  case (1 c doc old path data refs n)
  then show ?case by (simp add: walkDoc.simps)
next
  case (2 c old path s)
  then show ?case by simp
next
  case (3 c e rest old path s)
  then show ?case by (simp add: order_trans)
next
  case (4 c key ref old path data refs n)
  consider (leaf) "ref = VUndefined \<or> ref = VNull \<or> is_opaque ref"
    | (reference) "\<not> (ref = VUndefined \<or> ref = VNull \<or> is_opaque ref)" "isDocumentRef ref"
    | (array) "\<not> (ref = VUndefined \<or> ref = VNull \<or> is_opaque ref)" "\<not> isDocumentRef ref" "isArray ref"
    | (object) "\<not> (ref = VUndefined \<or> ref = VNull \<or> is_opaque ref)" "\<not> isDocumentRef ref"
        "\<not> isArray ref" "isObject ref"
    | (other) "\<not> (ref = VUndefined \<or> ref = VNull \<or> is_opaque ref)" "\<not> isDocumentRef ref"
        "\<not> isArray ref" "\<not> isObject ref"
    by blast
  then show ?case
  proof cases
    case leaf
    then show ?thesis by (simp add: walkField.simps)
  next
    case reference
    then show ?thesis by (simp add: walkField.simps Let_def)
  next
    case array
    show ?thesis
      using array "4.IH"(1) [OF array refl refl]
      by (simp add: walkField.simps Let_def Suc_leD)
  next
    case object
    show ?thesis
      using object "4.IH"(2) [OF object refl]
      by (simp add: walkField.simps Let_def Suc_leD)
  next
    case other
    then show ?thesis by (simp add: walkField.simps)
  qed
qed

lemma container_field_identity:
  assumes "isObject v" "isObject (fst s)"
  shows "\<exists>at x. get_own (fst (walkField c k v old path s)) k = Some (at, x) \<and>
                oid_of x = Some (snd (snd s)) \<and>
                snd (snd s) < snd (snd (walkField c k v old path s))"
proof -
  obtain d r m where s: "s = (d, r, m)" by (cases s) auto
  have leafs: "v \<noteq> VUndefined" "v \<noteq> VNull" "\<not> is_opaque v" "\<not> isDocumentRef v"
    using assms(1) by (cases v; simp)+
  show ?thesis
  proof (cases "isArray v")
    case True
    let ?old = "case old of
                       SameAsData \<Rightarrow> SameAsData
                     | Old w \<Rightarrow> if truthy (old_field (c_host c) old d k)
                               then Old (old_field (c_host c) old d k) else SameAsData"
    let ?r = "walkDoc c v ?old (path @ key_str k @ ''.'')
                (fill_all (c_host c) (c_byPath c) v (VObj m (ClsArray (array_length v)) []), r, Suc m)"
    have e: "walkField c k v old path (d, r, m) = (set_prop d k (fst ?r), snd ?r)"
      using True leafs by (simp add: walkField.simps Let_def)
    have "oid_of (fst ?r) = Some m"
      using walk_oid [of c v ?old "path @ key_str k @ ''.''" _ r "Suc m"] by (simp add: oid_of_fill)
    moreover have "Suc m \<le> snd (snd ?r)"
      using walk_counter(1) [of "(fill_all (c_host c) (c_byPath c) v (VObj m (ClsArray (array_length v)) []), r, Suc m)" c v ?old]
      by simp
    ultimately show ?thesis
      using assms(2) by (simp add: s e get_own_set_prop)
  next
    case False
    let ?old = "case old of
                       SameAsData \<Rightarrow> SameAsData
                     | Old w \<Rightarrow> Old (old_field (c_host c) old d k)"
    let ?r = "walkDoc c v ?old (path @ key_str k @ ''.'') (VObj m ClsPlain [], r, Suc m)"
    have e: "walkField c k v old path (d, r, m) = (set_prop d k (fst ?r), snd ?r)"
      using False assms(1) leafs by (simp add: walkField.simps Let_def)
    have "oid_of (fst ?r) = Some m"
      using walk_oid [of c v ?old "path @ key_str k @ ''.''" _ r "Suc m"] by simp
    moreover have "Suc m \<le> snd (snd ?r)"
      using walk_counter(1) [of "(VObj m ClsPlain [], r, Suc m)" c v ?old] by simp
    ultimately show ?thesis
      using assms(2) by (simp add: s e get_own_set_prop)
  qed
qed

lemma walk_container_identity:
  assumes "well_formed doc" "class_of data = class_of doc" "(k, v) \<in> set (for_in doc)" "isObject v"
  shows "\<exists>at x m. get_own (fst (walkDoc c doc old path (data, refs, n))) k = Some (at, x) \<and>
                  oid_of x = Some m \<and> n \<le> m \<and>
                  m < snd (snd (walkDoc c doc old path (data, refs, n)))"
proof -
  have dk: "distinct_keys doc" using assms(1) by (rule wf_distinct_keys)
  obtain cl where cl: "class_of doc = Some cl" using assms(3) by (cases doc) auto
  then have obj: "isObject doc" by (rule class_isObject)
  obtain es1 es2 where es: "for_in doc = es1 @ (k, v) # es2"
    using assms(3) by (meson split_list)
  have dist: "distinct (map fst (for_in doc))" using dk by (rule distinct_for_in)
  define init where "init = (copy_hidden doc data, refs, n)"
  define mid where "mid = walkKeys c es1 old path init"
  define after where "after = walkField c k v old path mid"
  have fin: "walkDoc c doc old path (data, refs, n) = walkKeys c es2 old path after"
    by (simp add: walkDoc.simps es walkKeys_append init_def mid_def after_def)
  have "isObject (fst init)"
    using get_own_copy_hidden(2) [OF assms(1,2) obj] cl by (simp add: init_def class_isObject)
  then have om: "isObject (fst mid)" by (simp add: mid_def walkKeys_isObject)
  obtain at x where x: "get_own (fst after) k = Some (at, x)" "oid_of x = Some (snd (snd mid))"
    "snd (snd mid) < snd (snd after)"
    unfolding after_def using container_field_identity [OF assms(4) om] by blast
  have k2: "k \<notin> fst ` set es2" using dist es by auto
  have "get_own (fst (walkDoc c doc old path (data, refs, n))) k = Some (at, x)"
    using k2 x(1) by (simp add: fin walkKeys_frame)
  moreover have "n \<le> snd (snd mid)"
    using walk_counter(2) [of init c es1 old path] by (simp add: mid_def init_def)
  moreover have "snd (snd mid) < snd (snd (walkDoc c doc old path (data, refs, n)))"
    using x(3) walk_counter(2) [of after c es2 old path] by (simp add: fin)
  ultimately show ?thesis using x(2) by blast
qed

subsection \<open>Values without references\<close>

lemma shows_VObj: "shows_no_reference (VObj a c ps) = props_show_no_reference ps"
  by (simp add: props_show_no_reference_def)

declare shows_no_reference.simps(1) [simp del]









lemma shows_value: "shows_no_reference doc \<Longrightarrow> (k, v) \<in> set (for_in doc) \<Longrightarrow> shows_no_reference v"
  by (cases doc) (auto simp: shows_VObj props_show_no_reference_def)


lemma subsByPath_values:
  assumes "x \<in> set (subsByPath sbs)"
  shows "\<exists>e \<in> set sbs. snd x = sub_data (snd e)"
proof -
  have "\<forall>x \<in> set acc. \<exists>e \<in> set sbs. snd x = sub_data (snd e) \<Longrightarrow>
        \<forall>x \<in> set (fold (\<lambda>subKey resultSubs.
             case map_of sbs subKey of
               Some s \<Rightarrow> AList.update (sub_path s) (sub_data s) resultSubs
             | None \<Rightarrow> resultSubs) ks acc). \<exists>e \<in> set sbs. snd x = sub_data (snd e)" for ks acc
  proof (induction ks arbitrary: acc)
    case Nil
    then show ?case by simp
  next
    case (Cons k ks)
    show ?case
    proof (cases "map_of sbs k")
      case None
      then show ?thesis using Cons by simp
    next
      case (Some s)
      then have "(k, s) \<in> set sbs" by (rule map_of_SomeD)
      then have "\<forall>x \<in> set (AList.update (sub_path s) (sub_data s) acc). \<exists>e \<in> set sbs. snd x = sub_data (snd e)"
        using Cons.prems by (force dest!: update_in)
      then show ?thesis using Cons.IH Some by simp
    qed
  qed
  from this [of "[]" "map fst sbs"] show ?thesis
    using assms unfolding subsByPath_def by simp
qed

subsection \<open>Deep equality\<close>

lemma deep_equalI:
  assumes "class_of v = Some cl" "class_of w = Some cl" "distinct_keys v" "distinct_keys w"
    and "is_array_class cl \<longrightarrow> get_own w (Name ''length'') = None"
    and "\<And>k. rel_option (deep_equal h) (enum_val v k) (enum_val w k)"
  shows "deep_equal h v w"
proof -
  obtain a ps where v: "v = VObj a cl ps" using assms(1) by (cases v) auto
  obtain b qs where w: "w = VObj b cl qs" using assms(2) by (cases w) auto
  have keys: "fst ` set (for_in v) = fst ` set (for_in w)"
  proof -
    have "\<And>k. (enum_val v k \<noteq> None) = (enum_val w k \<noteq> None)"
      using assms(6) by (metis option.rel_distinct(1,2) option.exhaust)
    then show ?thesis
      using for_in_keys_enum_val [OF assms(3)] for_in_keys_enum_val [OF assms(4)] by blast
  qed
  have vals: "deep_equal h (snd (snd p)) (get_prop h w (fst p))"
    if p: "p \<in> set ps" "enumerable (fst (snd p))" for p
  proof -
    have "distinct (map fst ps)" using assms(3) v by (simp add: distinct_keys_def)
    then have "map_of ps (fst p) = Some (snd p)"
      using p(1) by (metis map_of_eq_Some_iff prod.collapse)
    then have ev: "enum_val v (fst p) = Some (snd (snd p))"
      using p(2) v by (simp add: enum_val_def get_own_def)
    then obtain y where y: "enum_val w (fst p) = Some y" "deep_equal h (snd (snd p)) y"
      using assms(6) [of "fst p"] by (cases "enum_val w (fst p)") auto
    then obtain at where own: "get_own w (fst p) = Some (at, y)"
      by (auto simp: enum_val_def split: option.splits if_splits)
    have "get_prop h w (fst p) = y"
      using own assms(5) w by (auto simp: get_own_def)
    then show ?thesis using y(2) by simp
  qed
  show ?thesis
    using keys vals v w by simp
qed

lemma deep_equal_leaf: "\<not> isObject v \<Longrightarrow> deep_equal h v v"
  by (cases v) auto

lemma deep_equal_refl: "well_formed v \<Longrightarrow> deep_equal h v v"
proof (induction v rule: well_formed.induct)
  case (1 a c ps)
  let ?v = "VObj a c ps"
  have dk: "distinct_keys ?v" using "1.prems" by (rule wf_distinct_keys)
  have len: "is_array_class c \<longrightarrow> get_own ?v (Name ''length'') = None"
    using wf_length_free [OF "1.prems"] by simp
  have pw: "rel_option (deep_equal h) (enum_val ?v k) (enum_val ?v k)" for k
  proof (cases "enum_val ?v k")
    case None
    then show ?thesis by simp
  next
    case (Some x)
    then obtain at where "map_of ps k = Some (at, x)"
      by (auto simp: enum_val_def get_own_def split: option.splits if_splits)
    then have "(k, at, x) \<in> set ps" by (rule map_of_SomeD)
    then have "deep_equal h x x"
      using "1.IH" [of "(k, at, x)"] "1.prems" by auto
    then show ?thesis using Some by simp
  qed
  show ?case
    by (rule deep_equalI [OF _ _ dk dk len pw]) simp_all
qed simp_all

lemma copy_deep_equal:
  assumes "well_formed doc" "shows_no_reference doc" "isObject doc"
    and "class_of data = class_of doc" "distinct_keys data"
    and "\<And>k. get_own data k \<noteq> None \<Longrightarrow> get_own doc k \<noteq> None"
    and "\<And>k e. get_own data k = Some e \<Longrightarrow> enumerable (fst e)"
  shows "deep_equal h (fst (walkDoc c doc old path (data, refs, n))) doc \<and>
         deep_equal h doc (fst (walkDoc c doc old path (data, refs, n)))"
  using assms
proof (induction doc arbitrary: data old path refs n rule: measure_induct_rule [of size])
  case (less doc)
  let ?out = "fst (walkDoc c doc old path (data, refs, n))"
  obtain cl where cl: "class_of doc = Some cl" using less.prems(3) by (cases doc) auto
  have c_out: "class_of ?out = Some cl"
    using walkDoc_shape(1) [OF less.prems(1,4,3)] cl by simp
  have d_data: "distinct_keys data" using less.prems(5) .
  have d_out: "distinct_keys ?out"
    using walk_distinct_keys [OF less.prems(1,4,3)] d_data by simp
  have d_doc: "distinct_keys doc" using less.prems(1) by (rule wf_distinct_keys)
  have len: "is_array_class cl \<longrightarrow> get_own doc (Name ''length'') = None"
    using wf_length_free [OF less.prems(1) cl] .
  have len_out: "is_array_class cl \<longrightarrow> get_own ?out (Name ''length'') = None"
    using walkDoc_shape(2) [OF less.prems(1,4,3), of c old path refs n "Name ''length''"]
          len less.prems(6) [of "Name ''length''"] by auto
  have pointwise: "rel_option (deep_equal h) (enum_val ?out k) (enum_val doc k) \<and>
                   rel_option (deep_equal h) (enum_val doc k) (enum_val ?out k)" for k
  proof (cases "k \<in> fst ` set (for_in doc)")
    case False
    then have "enum_val doc k = None"
      using for_in_keys_enum_val [OF d_doc] by simp
    moreover have "get_own doc k = None \<Longrightarrow> get_own data k = None"
      using less.prems(6) [of k] by blast
    then have "enum_val ?out k = None"
      using walk_other_key [OF less.prems(1,4,3) False, of c old path refs n]
      by (cases "get_own doc k = None") (simp_all add: enum_val_def)
    ultimately show ?thesis by simp
  next
    case True
    then obtain v where v: "(k, v) \<in> set (for_in doc)" by auto
    then obtain at where at: "get_own doc k = Some (at, v)" "enumerable at"
      using for_in_iff [OF d_doc] by blast
    have ev: "enum_val doc k = Some v" using at by (simp add: enum_val_def)
    obtain s where s:
      "get_own ?out k = get_own (fst (walkField c k v old path s)) k"
      "class_of (fst s) = class_of doc"
      "get_own (fst s) k = get_own data k"
      using walk_reaches_field [OF less.prems(1,4) v] by blast
    obtain d r m where sm: "s = (d, r, m)" by (cases s) auto
    have od: "isObject d" using s(2) cl sm by (simp add: class_isObject)
    have wv: "well_formed v" using less.prems(1) v by (rule wf_value)
    have sv: "shows_no_reference v" using less.prems(2) v by (rule shows_value)
    have nr: "\<not> isDocumentRef v" using sv by (cases v) auto
    have "\<exists>x. fst (walkField c k v old path s) = set_prop d k x \<and> deep_equal h x v \<and> deep_equal h v x"
    proof (cases "isObject v")
      case False
      then have "\<not> isArray v" by (cases v) auto
      then have "fst (walkField c k v old path s) = set_prop d k v"
        using False nr by (simp add: sm walkField.simps)
      then show ?thesis using deep_equal_leaf [OF False] by blast
    next
      case True
      then have leafs: "v \<noteq> VUndefined" "v \<noteq> VNull" "\<not> is_opaque v" by (cases v; simp)+
      have sz: "size v < size doc" using v by (rule size_value)
      show ?thesis
      proof (cases "isArray v")
        case arr: True
        let ?old = "case old of
                       SameAsData \<Rightarrow> SameAsData
                     | Old w \<Rightarrow> if truthy (old_field (c_host c) old d k)
                               then Old (old_field (c_host c) old d k) else SameAsData"
        define F where "F = fill_all (c_host c) (c_byPath c) v (VObj m (ClsArray (array_length v)) [])"
        let ?x = "fst (walkDoc c v ?old (path @ key_str k @ ''.'') (F, r, Suc m))"
        have cF: "class_of F = class_of v" unfolding F_def using arr by (rule fill_dom(1))
        have dF: "distinct_keys F" unfolding F_def using arr by (rule fill_shape(1))
        have inF: "\<And>k. get_own F k \<noteq> None \<Longrightarrow> get_own v k \<noteq> None"
          unfolding F_def using arr by (rule fill_dom(2))
        have enF: "\<And>k e. get_own F k = Some e \<Longrightarrow> enumerable (fst e)"
          unfolding F_def using fill_shape(2) [OF arr] by (simp add: assigned_attrs_def)
        have "deep_equal h ?x v \<and> deep_equal h v ?x"
          using less.IH [OF sz wv sv True cF dF inF enF] by simp
        moreover have "fst (walkField c k v old path s) = set_prop d k ?x"
          using arr nr leafs
          by (simp add: sm walkField.simps Let_def F_def)
        ultimately show ?thesis by blast
      next
        case notarr: False
        let ?old = "case old of
                       SameAsData \<Rightarrow> SameAsData
                     | Old w \<Rightarrow> Old (old_field (c_host c) old d k)"
        let ?x = "fst (walkDoc c v ?old (path @ key_str k @ ''.'')
                         (VObj m ClsPlain [], r, Suc m))"
        have cv: "class_of (VObj m ClsPlain []) = class_of v"
          using notarr True by (cases v; cases "the (class_of v)") auto
        have "deep_equal h ?x v \<and> deep_equal h v ?x"
          using less.IH [OF sz wv sv True cv]
          by (simp add: distinct_keys_def get_own_empty)
        moreover have "fst (walkField c k v old path s) = set_prop d k ?x"
          using notarr True nr leafs
          by (simp add: sm walkField.simps Let_def)
        ultimately show ?thesis by blast
      qed
    qed
    then obtain x where x: "fst (walkField c k v old path s) = set_prop d k x"
      "deep_equal h x v" "deep_equal h v x"
      by blast
    obtain at' where own: "get_own ?out k = Some (at', x)" "enumerable at'"
    proof (cases "get_own data k")
      case None
      then have "get_own ?out k = Some (assigned_attrs, x)"
        using s(1,3) x(1) od by (simp add: sm get_own_set_prop)
      then show ?thesis using that by (simp add: assigned_attrs_def)
    next
      case (Some e)
      then have "get_own ?out k = Some (fst e, x)"
        using s(1,3) x(1) od by (simp add: sm get_own_set_prop)
      then show ?thesis using that less.prems(7) [OF Some] by simp
    qed
    then have "enum_val ?out k = Some x"
      by (simp add: enum_val_def)
    then show ?thesis using ev x(2,3) by simp
  qed
  show ?case
    using deep_equalI [OF c_out cl d_out d_doc len] deep_equalI [OF cl c_out d_doc d_out len_out]
          pointwise
    by blast
qed

lemma second_walk_deep_equal:
  assumes "\<forall>e \<in> set (c_byPath c). well_formed (snd e)"
    and "well_formed doc" "isObject doc" "old_wf old"
    and "class_of A1 = class_of doc" "class_of A2 = class_of doc"
    and "distinct_keys A1" "distinct_keys A2"
    and "\<And>k. get_own A1 k = get_own A2 k"
    and "\<And>k. get_own A1 k \<noteq> None \<Longrightarrow> get_own doc k \<noteq> None"
    and "\<And>k e. get_own A1 k = Some e \<Longrightarrow> well_formed (snd e)"
  shows "deep_equal h
           (fst (walkDoc c doc
                   (Old (fst (walkDoc c doc old path (A1, refs1, n1)))) path (A2, refs2, n2)))
           (fst (walkDoc c doc old path (A1, refs1, n1))) \<and>
         deep_equal h
           (fst (walkDoc c doc old path (A1, refs1, n1)))
           (fst (walkDoc c doc
                   (Old (fst (walkDoc c doc old path (A1, refs1, n1)))) path (A2, refs2, n2)))"
  using assms(2-)
proof (induction doc arbitrary: A1 A2 old path refs1 refs2 n1 n2 rule: measure_induct_rule [of size])
  case (less doc)
  note byPath = assms(1)
  define R1 where "R1 = fst (walkDoc c doc old path (A1, refs1, n1))"
  define R2 where "R2 = fst (walkDoc c doc (Old R1) path (A2, refs2, n2))"
  obtain cl where cl: "class_of doc = Some cl" using less.prems(2) by (cases doc) auto
  have c1: "class_of R1 = Some cl"
    unfolding R1_def using walkDoc_shape(1) [OF less.prems(1,4,2)] cl by simp
  have c2: "class_of R2 = Some cl"
    unfolding R2_def using walkDoc_shape(1) [OF less.prems(1,5,2)] cl by simp
  have d1: "distinct_keys R1"
    unfolding R1_def using walk_distinct_keys [OF less.prems(1,4,2)] less.prems(6) by simp
  have d2: "distinct_keys R2"
    unfolding R2_def using walk_distinct_keys [OF less.prems(1,5,2)] less.prems(7) by simp
  have d_doc: "distinct_keys doc" using less.prems(1) by (rule wf_distinct_keys)
  have len_doc: "is_array_class cl \<longrightarrow> get_own doc (Name ''length'') = None"
    using wf_length_free [OF less.prems(1) cl] .
  have inside2: "\<And>k. get_own A2 k \<noteq> None \<Longrightarrow> get_own doc k \<noteq> None"
    using less.prems(8,9) by simp
  have len1: "is_array_class cl \<longrightarrow> get_own R1 (Name ''length'') = None"
    unfolding R1_def
    using walkDoc_shape(2) [OF less.prems(1,4,2), of c old path refs1 n1 "Name ''length''"]
          len_doc less.prems(9) [of "Name ''length''"] by auto
  have len2: "is_array_class cl \<longrightarrow> get_own R2 (Name ''length'') = None"
    unfolding R2_def
    using walkDoc_shape(2) [OF less.prems(1,5,2), of c "Old R1" path refs2 n2 "Name ''length''"]
          len_doc inside2 [of "Name ''length''"] by auto
  have pointwise: "rel_option (deep_equal h) (enum_val R2 k) (enum_val R1 k) \<and>
                   rel_option (deep_equal h) (enum_val R1 k) (enum_val R2 k)" for k
  proof (cases "k \<in> fst ` set (for_in doc)")
    case False
    have a1: "get_own doc k = None \<Longrightarrow> get_own A1 k = None"
      using less.prems(9) [of k] by blast
    have a2: "get_own doc k = None \<Longrightarrow> get_own A2 k = None"
      using inside2 [of k] by blast
    have "enum_val R1 k = None"
      unfolding R1_def
      using walk_other_key [OF less.prems(1,4,2) False, of c old path refs1 n1] a1
      by (cases "get_own doc k = None") (simp_all add: enum_val_def)
    moreover have "enum_val R2 k = None"
      unfolding R2_def
      using walk_other_key [OF less.prems(1,5,2) False, of c "Old R1" path refs2 n2] a2
      by (cases "get_own doc k = None") (simp_all add: enum_val_def)
    ultimately show ?thesis by simp
  next
    case True
    then obtain v where v: "(k, v) \<in> set (for_in doc)" by auto
    have ok: "array_key_ok cl k" using for_in_key_ok [OF less.prems(1) cl v] by simp
    obtain s1 where s1:
      "get_own R1 k = get_own (fst (walkField c k v old path s1)) k"
      "class_of (fst s1) = class_of doc"
      "get_own (fst s1) k = get_own A1 k"
      unfolding R1_def using walk_reaches_field [OF less.prems(1,4) v] by blast
    obtain s2 where s2:
      "get_own R2 k = get_own (fst (walkField c k v (Old R1) path s2)) k"
      "class_of (fst s2) = class_of doc"
      "get_own (fst s2) k = get_own A2 k"
      unfolding R2_def using walk_reaches_field [OF less.prems(1,5) v] by blast
    obtain e1 q1 m1 where sm1: "s1 = (e1, q1, m1)" by (cases s1) auto
    obtain e2 q2 m2 where sm2: "s2 = (e2, q2, m2)" by (cases s2) auto
    have o1: "isObject e1" using s1(2) cl sm1 by (simp add: class_isObject)
    have o2: "isObject e2" using s2(2) cl sm2 by (simp add: class_isObject)
    have wv: "well_formed v" using less.prems(1) v by (rule wf_value)
    define at where "at = (case get_own A1 k of Some e \<Rightarrow> fst e | None \<Rightarrow> assigned_attrs)"
    have own1: "\<And>x. fst (walkField c k v old path s1) = set_prop e1 k x \<Longrightarrow> get_own R1 k = Some (at, x)"
      using s1(1,3) o1 by (simp add: sm1 get_own_set_prop at_def)
    have own2: "\<And>x. fst (walkField c k v (Old R1) path s2) = set_prop e2 k x \<Longrightarrow> get_own R2 k = Some (at, x)"
      using s2(1,3) o2 less.prems(8) [of k] by (simp add: sm2 get_own_set_prop at_def)
    have read1: "\<And>x. get_own R1 k = Some (at, x) \<Longrightarrow> old_field (c_host c) (Old R1) e2 k = x"
      using get_prop_own_ok [OF c1 ok] c1 by (cases R1) auto
    have "\<exists>x1 x2. fst (walkField c k v old path s1) = set_prop e1 k x1 \<and>
                  fst (walkField c k v (Old R1) path s2) = set_prop e2 k x2 \<and>
                  deep_equal h x2 x1 \<and> deep_equal h x1 x2"
    proof -
      consider (leaf) "v = VUndefined \<or> v = VNull \<or> is_opaque v"
        | (reference) "\<not> (v = VUndefined \<or> v = VNull \<or> is_opaque v)" "isDocumentRef v"
        | (array) "\<not> (v = VUndefined \<or> v = VNull \<or> is_opaque v)" "\<not> isDocumentRef v" "isArray v"
        | (object) "\<not> (v = VUndefined \<or> v = VNull \<or> is_opaque v)" "\<not> isDocumentRef v"
            "\<not> isArray v" "isObject v"
        | (other) "\<not> (v = VUndefined \<or> v = VNull \<or> is_opaque v)" "\<not> isDocumentRef v"
            "\<not> isArray v" "\<not> isObject v"
        by blast
      then show ?thesis
      proof cases
        case leaf
        then have "fst (walkField c k v old path s1) = set_prop e1 k v"
          "fst (walkField c k v (Old R1) path s2) = set_prop e2 k v"
          by (simp_all add: sm1 sm2 walkField.simps)
        then show ?thesis using deep_equal_refl [OF wv] by blast
      next
        case other
        then have "fst (walkField c k v old path s1) = set_prop e1 k v"
          "fst (walkField c k v (Old R1) path s2) = set_prop e2 k v"
          by (simp_all add: sm1 sm2 walkField.simps)
        then show ?thesis using deep_equal_refl [OF wv] by blast
      next
        case reference
        define x1 where "x1 = (if in_registry (c_host c) (c_subs c) (path @ key_str k) then old_field (c_host c) old e1 k
                               else VStr (ref_path v))"
        have f1: "fst (walkField c k v old path s1) = set_prop e1 k x1"
          using reference by (simp add: sm1 walkField.simps Let_def x1_def)
        have r1: "old_field (c_host c) (Old R1) e2 k = x1"
          using read1 own1 [OF f1] by simp
        have f2: "fst (walkField c k v (Old R1) path s2) = set_prop e2 k x1"
          using reference r1 by (simp add: sm2 walkField.simps Let_def x1_def)
        have "well_formed (old_field (c_host c) old e1 k)"
        proof (cases old)
          case (Old w)
          then show ?thesis using less.prems(3) by (simp add: wf_get_prop)
        next
          case SameAsData
          have "get_prop (c_host c) e1 k = get_prop (c_host c) A1 k"
            using get_prop_eq [of e1 cl A1 k] s1(2,3) cl less.prems(4) by (simp add: sm1)
          moreover have "well_formed (get_prop (c_host c) A1 k)"
            using less.prems(10) [of k]
            by (cases A1)
               (auto simp: get_own_def dest: inherited_leaf(1) split: option.splits pkey.splits)
          ultimately show ?thesis using SameAsData by simp
        qed
        then have "well_formed x1" by (simp add: x1_def)
        then show ?thesis using f1 f2 deep_equal_refl by blast
      next
        case array
        define path' where "path' = path @ key_str k @ ''.''"
        define F1 where "F1 = fill_all (c_host c) (c_byPath c) v (VObj m1 (ClsArray (array_length v)) [])"
        define F2 where "F2 = fill_all (c_host c) (c_byPath c) v (VObj m2 (ClsArray (array_length v)) [])"
        define old1 where "old1 = (case old of
                       SameAsData \<Rightarrow> SameAsData
                     | Old w \<Rightarrow> if truthy (old_field (c_host c) old e1 k)
                               then Old (old_field (c_host c) old e1 k) else SameAsData)"
        define x1 where "x1 = fst (walkDoc c v old1 path' (F1, q1, Suc m1))"
        define x2 where "x2 = fst (walkDoc c v (Old x1) path' (F2, q2, Suc m2))"
        have f1: "fst (walkField c k v old path s1) = set_prop e1 k x1"
          using array by (simp add: sm1 walkField.simps Let_def x1_def F1_def old1_def path'_def)
        have ov: "isObject v" using array by (cases v) auto
        have cF1: "class_of F1 = class_of v" unfolding F1_def using array(3) by (rule fill_dom(1))
        have cF2: "class_of F2 = class_of v" unfolding F2_def using array(3) by (rule fill_dom(1))
        have "class_of x1 = class_of v"
          unfolding x1_def using wv cF1 ov by (rule walkDoc_shape(1))
        then have tx: "truthy x1" using ov by (cases x1; cases v) auto
        have r1: "old_field (c_host c) (Old R1) e2 k = x1"
          using read1 own1 [OF f1] by simp
        have f2: "fst (walkField c k v (Old R1) path s2) = set_prop e2 k x2"
          using array r1 tx
          by (simp add: sm2 walkField.simps Let_def x2_def F2_def path'_def)
        have wo: "old_wf old1"
          unfolding old1_def using less.prems(3) by (cases old) (auto simp: wf_get_prop)
        have sz: "size v < size doc" using v by (rule size_value)
        have "deep_equal h x2 x1 \<and> deep_equal h x1 x2"
          unfolding x2_def x1_def
        proof (rule less.IH [OF sz wv ov wo cF1 cF2])
          show "distinct_keys F1" unfolding F1_def using array(3) byPath by (rule fill_facts(2))
          show "distinct_keys F2" unfolding F2_def using array(3) byPath by (rule fill_facts(2))
          show "\<And>k. get_own F1 k = get_own F2 k"
            unfolding F1_def F2_def using array(3) byPath by (rule fill_facts(1))
          show "\<And>k. get_own F1 k \<noteq> None \<Longrightarrow> get_own v k \<noteq> None"
            unfolding F1_def using array(3) by (rule fill_dom(2))
          show "\<And>k e. get_own F1 k = Some e \<Longrightarrow> well_formed (snd e)"
            unfolding F1_def using array(3) byPath by (rule fill_facts(3))
        qed
        then show ?thesis using f1 f2 by blast
      next
        case object
        define path' where "path' = path @ key_str k @ ''.''"
        define old1 where "old1 = (case old of
                       SameAsData \<Rightarrow> SameAsData
                     | Old w \<Rightarrow> Old (old_field (c_host c) old e1 k))"
        define x1 where "x1 = fst (walkDoc c v old1 path' (VObj m1 ClsPlain [], q1, Suc m1))"
        define x2 where "x2 = fst (walkDoc c v (Old x1) path' (VObj m2 ClsPlain [], q2, Suc m2))"
        have f1: "fst (walkField c k v old path s1) = set_prop e1 k x1"
          using object by (simp add: sm1 walkField.simps Let_def x1_def old1_def path'_def)
        have r1: "old_field (c_host c) (Old R1) e2 k = x1"
          using read1 own1 [OF f1] by simp
        have f2: "fst (walkField c k v (Old R1) path s2) = set_prop e2 k x2"
          using object r1
          by (simp add: sm2 walkField.simps Let_def x2_def path'_def)
        have wo: "old_wf old1"
          unfolding old1_def using less.prems(3) by (cases old) (auto simp: wf_get_prop)
        have sz: "size v < size doc" using v by (rule size_value)
        have cE: "class_of (VObj m1 ClsPlain []) = class_of v" "class_of (VObj m2 ClsPlain []) = class_of v"
          using plain_class [OF object(4,3)] by simp_all
        have "deep_equal h x2 x1 \<and> deep_equal h x1 x2"
          unfolding x2_def x1_def
          by (rule less.IH [OF sz wv object(4) wo cE])
             (simp_all add: distinct_keys_def get_own_empty)
        then show ?thesis using f1 f2 by blast
      qed
    qed
    then obtain x1 x2 where x:
      "fst (walkField c k v old path s1) = set_prop e1 k x1"
      "fst (walkField c k v (Old R1) path s2) = set_prop e2 k x2"
      "deep_equal h x2 x1" "deep_equal h x1 x2"
      by blast
    show ?thesis
      using own1 [OF x(1)] own2 [OF x(2)] x(3,4) by (simp add: enum_val_def)
  qed
  show ?case
    using deep_equalI [OF c2 c1 d2 d1 len1] deep_equalI [OF c1 c2 d1 d2 len2] pointwise
    unfolding R2_def R1_def by blast
qed

subsection \<open>The walker and the walk when no conversion fails\<close>

lemma fillLoop_result:
  "fillLoop h byPath ref xs d =
     (if list_all (\<lambda>i. truthy (get_prop h ref (Idx i)) \<longrightarrow>
                         to_key h (get_prop h (get_prop h ref (Idx i)) (Name ''path'')) \<noteq> None) xs
      then Inr (fold (fill_step h byPath ref) xs d) else Inl TypeError)"
  by (induction xs arbitrary: d)
     (auto simp: Let_def fill_step_def resolved_at_def split: option.splits)

lemma fillExisting_result:
  "fillExisting h byPath ref arr =
     (if paths_convert h ref then Inr (fill_all h byPath ref arr) else Inl TypeError)"
  by (simp add: fillExisting_def fillLoop_result paths_convert_def fill_all_def)

lemma convertible_iff:
  "isObject v \<Longrightarrow>
   convertible h v =
     ((isArray v \<longrightarrow> paths_convert h v) \<and> list_all (\<lambda>e. convertible h (snd e)) (for_in v))"
  by (cases v) (auto simp: list_all_iff)

lemma convertible_leaf: "\<not> isObject v \<Longrightarrow> convertible h v"
  by (cases v) auto

lemma walker_result:
  shows "recursiveExtract c doc old path s =
           (if list_all (\<lambda>e. convertible (c_host c) (snd e)) (for_in doc)
            then Inr (walkDoc c doc old path s) else Inl TypeError)"
    and "extractKeys c es old path s =
           (if list_all (\<lambda>e. convertible (c_host c) (snd e)) es
            then Inr (walkKeys c es old path s) else Inl TypeError)"
    and "extractField c key ref old path s =
           (if convertible (c_host c) ref
            then Inr (walkField c key ref old path s) else Inl TypeError)"
proof (induction c doc old path s and c es old path s and c key ref old path s
       rule: recursiveExtract_extractKeys_extractField.induct)
  case (1 c doc old path data refs n)
  then show ?case by (simp add: recursiveExtract.simps walkDoc.simps)
next
  case (2 c old path s)
  then show ?case by simp
next
  case (3 c e rest old path s)
  show ?case
  proof (cases "convertible (c_host c) (snd e)")
    case False
    then show ?thesis using "3.IH"(1) by simp
  next
    case True
    then have f: "extractField c (fst e) (snd e) old path s = Inr (walkField c (fst e) (snd e) old path s)"
      using "3.IH"(1) by simp
    show ?thesis using True f "3.IH"(2) [OF f] by simp
  qed
next
  case (4 c key ref old path data refs n)
  consider (leaf) "ref = VUndefined \<or> ref = VNull \<or> is_opaque ref"
    | (reference) "\<not> (ref = VUndefined \<or> ref = VNull \<or> is_opaque ref)" "isDocumentRef ref"
    | (array) "\<not> (ref = VUndefined \<or> ref = VNull \<or> is_opaque ref)" "\<not> isDocumentRef ref" "isArray ref"
    | (object) "\<not> (ref = VUndefined \<or> ref = VNull \<or> is_opaque ref)" "\<not> isDocumentRef ref"
        "\<not> isArray ref" "isObject ref"
    | (other) "\<not> (ref = VUndefined \<or> ref = VNull \<or> is_opaque ref)" "\<not> isDocumentRef ref"
        "\<not> isArray ref" "\<not> isObject ref"
    by blast
  then show ?case
  proof cases
    case leaf
    then have "\<not> isObject ref" by (cases ref) auto
    then show ?thesis
      using leaf by (simp add: extractField.simps walkField.simps convertible_leaf)
  next
    case reference
    then have "\<not> isObject ref" by (cases ref) auto
    then show ?thesis
      using reference by (simp add: extractField.simps walkField.simps Let_def convertible_leaf)
  next
    case other
    then show ?thesis
      by (simp add: extractField.simps walkField.simps convertible_leaf)
  next
    case array
    have obj: "isObject ref" using array(3) by (cases ref) auto
    show ?thesis
    proof (cases "paths_convert (c_host c) ref")
      case False
      then show ?thesis
        using array obj by (simp add: extractField.simps fillExisting_result convertible_iff)
    next
      case True
      define arr where "arr = fill_all (c_host c) (c_byPath c) ref (VObj n (ClsArray (array_length ref)) [])"
      have f: "fillExisting (c_host c) (c_byPath c) ref (VObj n (ClsArray (array_length ref)) []) = Inr arr"
        using True by (simp add: fillExisting_result arr_def)
      note ih = "4.IH"(1) [OF array f]
      show ?thesis
        using array obj True f ih
        by (simp add: extractField.simps walkField.simps Let_def convertible_iff arr_def)
    qed
  next
    case object
    note ih = "4.IH"(2) [OF object]
    show ?thesis
      using object ih
      by (simp add: extractField.simps walkField.simps Let_def convertible_iff)
  qed
qed

lemma walker_returns:
  "recursiveExtract c doc old path s = Inr r \<Longrightarrow> r = walkDoc c doc old path s"
  by (simp add: walker_result(1) split: if_splits)

lemma convertible_POJO:
  "isPOJO d \<Longrightarrow> convertible h d = list_all (\<lambda>e. convertible h (snd e)) (for_in d)"
  by (cases d; cases "the (class_of d)") (auto simp: list_all_iff)

lemma extractRefs_result:
  "isPOJO d \<Longrightarrow>
   extractRefs h d oldDoc reg opts n =
     (if convertible h d then
        (let r = walkDoc \<lparr>c_host = h, c_subs = reg, c_byPath = subsByPath (reg_subs reg),
                          c_converter = opt_converter opts\<rparr>
                   d (Old oldDoc) [] (VObj n ClsPlain [], [], Suc n)
         in Inr ((fst r, fst (snd r)), snd (snd r)))
      else Inl TypeError)"
  by (simp add: extractRefs_def walker_result(1) convertible_POJO Let_def)

subsection \<open>The reference map\<close>




subsection \<open>References in the output of the walk\<close>






subsection \<open>Array fields\<close>

lemma walk_array_field:
  assumes "well_formed doc" "class_of data = class_of doc" "(key, arr) \<in> set (for_in doc)"
    and "isArray arr"
  obtains at m r where
    "get_own (fst (walkDoc c doc old path (data, refs, n))) key
       = Some (at, fst (walkDoc c arr
                          (if old \<noteq> SameAsData \<and> truthy (old_field (c_host c) old data key)
                           then Old (old_field (c_host c) old data key) else SameAsData)
                          (path @ key_str key @ ''.'')
                          (fill_all (c_host c) (c_byPath c) arr (VObj m (ClsArray (array_length arr)) []),
                           r, Suc m)))"
    "n \<le> m" "m < snd (snd (walkDoc c doc old path (data, refs, n)))"
proof -
  obtain s where s:
    "get_own (fst (walkDoc c doc old path (data, refs, n))) key
       = get_own (fst (walkField c key arr old path s)) key"
    "class_of (fst s) = class_of doc"
    "get_own (fst s) key = get_own data key"
    using walk_reaches_field [OF assms(1,2,3)] by blast
  obtain cl where cl: "class_of doc = Some cl"
    using assms(3) by (cases doc) auto
  have obj: "isObject (fst s)" using s(2) cl by (simp add: class_isObject)
  obtain d r m where sm: "s = (d, r, m)" by (cases s) auto
  define filled where "filled = fill_all (c_host c) (c_byPath c) arr (VObj m (ClsArray (array_length arr)) [])"
  define old' where "old' = (case old of
                       SameAsData \<Rightarrow> SameAsData
                     | Old w \<Rightarrow> if truthy (old_field (c_host c) old d key)
                               then Old (old_field (c_host c) old d key) else SameAsData)"
  define out where "out = fst (walkDoc c arr old' (path @ key_str key @ ''.'') (filled, r, Suc m))"
  have notref: "\<not> isDocumentRef arr" "arr \<noteq> VUndefined" "arr \<noteq> VNull" "\<not> is_opaque arr"
    using assms(4) by (cases arr; simp)+
  have step: "fst (walkField c key arr old path s) = set_prop d key out"
    using assms(4) notref
    by (simp add: sm walkField.simps Let_def filled_def old'_def out_def)
  have same_old: "old_field (c_host c) old d key = old_field (c_host c) old data key"
    using get_prop_eq [of d cl data key] s(2,3) cl assms(2) by (cases old) (auto simp: sm)
  have old'_eq: "old' = (if old \<noteq> SameAsData \<and> truthy (old_field (c_host c) old data key)
                         then Old (old_field (c_host c) old data key) else SameAsData)"
    unfolding old'_def same_old by (cases old) auto
  obtain at where at_key: "get_own (fst (walkDoc c doc old path (data, refs, n))) key = Some (at, out)"
    using s(1) step obj by (simp add: sm get_own_set_prop)
  have oa: "isObject arr" using assms(4) by (cases arr) auto
  obtain at' x m' where x: "get_own (fst (walkDoc c doc old path (data, refs, n))) key = Some (at', x)"
    "oid_of x = Some m'" "n \<le> m'" "m' < snd (snd (walkDoc c doc old path (data, refs, n)))"
    using walk_container_identity [OF assms(1,2,3) oa] by blast
  have "oid_of out = Some m"
    unfolding out_def filled_def by (simp add: walk_oid oid_of_fill)
  then have "m' = m" using x(1,2) at_key by simp
  then show ?thesis
    using that [of at m r] at_key x(3,4) by (simp add: out_def filled_def old'_eq)
qed

subsection \<open>Container fields\<close>

lemma walk_container_field:
  assumes "well_formed doc" "class_of data = class_of doc" "(k, v) \<in> set (for_in doc)" "isObject v"
  shows "\<exists>at x m. get_own (fst (walkDoc c doc old path (data, refs, n))) k = Some (at, x) \<and>
                  oid_of x = Some m \<and> n \<le> m \<and>
                  m < snd (snd (walkDoc c doc old path (data, refs, n))) \<and>
                  class_of x = class_of v \<and>
                  (shows_no_reference v \<longrightarrow> deep_equal h x v \<and> deep_equal h v x)"
proof -
  obtain at x m where x: "get_own (fst (walkDoc c doc old path (data, refs, n))) k = Some (at, x)"
    "oid_of x = Some m" "n \<le> m" "m < snd (snd (walkDoc c doc old path (data, refs, n)))"
    using walk_container_identity [OF assms] by blast
  obtain s where s:
    "get_own (fst (walkDoc c doc old path (data, refs, n))) k
       = get_own (fst (walkField c k v old path s)) k"
    "class_of (fst s) = class_of doc"
    using walk_reaches_field [OF assms(1,2,3)] by metis
  obtain cl where cl: "class_of doc = Some cl" using assms(3) by (cases doc) auto
  obtain d r j where sm: "s = (d, r, j)" by (cases s) auto
  have od: "isObject d" using s(2) cl sm by (simp add: class_isObject)
  have wv: "well_formed v" using assms(1,3) by (rule wf_value)
  have leafs: "v \<noteq> VUndefined" "v \<noteq> VNull" "\<not> is_opaque v" "\<not> isDocumentRef v"
    using assms(4) by (cases v; simp)+
  have "\<exists>y. fst (walkField c k v old path s) = set_prop d k y \<and> class_of y = class_of v \<and>
             (shows_no_reference v \<longrightarrow> deep_equal h y v \<and> deep_equal h v y)"
  proof (cases "isArray v")
    case True
    define F where "F = fill_all (c_host c) (c_byPath c) v (VObj j (ClsArray (array_length v)) [])"
    define old' where "old' = (case old of
                       SameAsData \<Rightarrow> SameAsData
                     | Old w \<Rightarrow> if truthy (old_field (c_host c) old d k)
                               then Old (old_field (c_host c) old d k) else SameAsData)"
    define y where "y = fst (walkDoc c v old' (path @ key_str k @ ''.'') (F, r, Suc j))"
    have cF: "class_of F = class_of v" unfolding F_def using True by (rule fill_dom(1))
    have dF: "distinct_keys F" unfolding F_def using True by (rule fill_shape(1))
    have inF: "\<And>k. get_own F k \<noteq> None \<Longrightarrow> get_own v k \<noteq> None"
      unfolding F_def using True by (rule fill_dom(2))
    have enF: "\<And>k e. get_own F k = Some e \<Longrightarrow> enumerable (fst e)"
      unfolding F_def using fill_shape(2) [OF True] by (simp add: assigned_attrs_def)
    have "fst (walkField c k v old path s) = set_prop d k y"
      using True leafs by (simp add: sm walkField.simps Let_def y_def F_def old'_def)
    moreover have "class_of y = class_of v"
      unfolding y_def using wv cF assms(4) by (rule walkDoc_shape(1))
    moreover have "deep_equal h y v \<and> deep_equal h v y" if "shows_no_reference v"
      unfolding y_def using wv that assms(4) cF dF inF enF by (rule copy_deep_equal)
    ultimately show ?thesis by blast
  next
    case False
    define old' where "old' = (case old of
                       SameAsData \<Rightarrow> SameAsData
                     | Old w \<Rightarrow> Old (old_field (c_host c) old d k))"
    define y where "y = fst (walkDoc c v old' (path @ key_str k @ ''.'') (VObj j ClsPlain [], r, Suc j))"
    have cE: "class_of (VObj j ClsPlain []) = class_of v"
      using plain_class [OF assms(4) False] by simp
    have "fst (walkField c k v old path s) = set_prop d k y"
      using False assms(4) leafs by (simp add: sm walkField.simps Let_def y_def old'_def)
    moreover have "class_of y = class_of v"
      unfolding y_def using wv cE assms(4) by (rule walkDoc_shape(1))
    moreover have "deep_equal h y v \<and> deep_equal h v y" if "shows_no_reference v"
      unfolding y_def
      by (rule copy_deep_equal [OF wv that assms(4) cE])
         (simp_all add: distinct_keys_def get_own_empty)
    ultimately show ?thesis by blast
  qed
  then obtain y where y: "fst (walkField c k v old path s) = set_prop d k y"
    "class_of y = class_of v" "shows_no_reference v \<longrightarrow> deep_equal h y v \<and> deep_equal h v y"
    by blast
  have "\<exists>at'. get_own (fst (walkDoc c doc old path (data, refs, n))) k = Some (at', y)"
    using s(1) y(1) od by (simp add: sm get_own_set_prop)
  then have "x = y" using x(1) by auto
  then show ?thesis using x y(2,3) by blast
qed

section \<open>The Subscription Path Index\<close>





section \<open>Reference fields\<close>



section \<open>The fast path of arrays\<close>

text \<open>
  Claim C10, as stated, fails for the data that the walker returns: a plain object that
  carries a \<open>path\<close> found in the Subscription Path Index is not replaced by the
  resolved document. The pre-fill loop does write the resolved document at its index, but
  the walk of the array that follows assigns a new record to that index and copies the
  fields of the plain object into it. In \<open>{ a: [<hole>, { path: "users/1" }, 5] }\<close>
  with the document of \<open>users/1\<close> resolved, index 1 of the output holds a copy of
  \<open>{ path: "users/1" }\<close>.
\<close>

theorem plain_object_not_replaced_counterexample:
  "truthy (get_prop ex_host ex_array (Idx 1)) \<and>
   to_key ex_host (get_prop ex_host (get_prop ex_host ex_array (Idx 1)) (Name ''path'')) = Some ''users/1'' \<and>
   map_of (subsByPath ex_subs) ''users/1'' = Some ex_bob \<and>
   get_own (get_prop ex_host
              (fst (fst (projr (extractRefs ex_host ex_array_doc VUndefined (ex_registry ex_subs)
                                  ex_opts 10))))
              (Name ''a'')) (Idx 1)
     = Some (assigned_attrs, VObj 12 ClsPlain [(Name ''path'', assigned_attrs, VStr ''users/1'')])"
  by code_simp

text \<open>
  Claim C10, amended. In the loop that pre-fills the new array, an index \<open>i\<close> of the
  input array is written exactly when the element there is truthy and the key obtained
  from its \<open>path\<close> property is found in the Subscription Path Index by the operator
  \<open>in\<close> (as an own key of the index, or as the name of a member that the index, an
  object literal, inherits), and it is written with what the read of the index under
  that key returns. Nothing requires the element to be a reference: a plain object with a
  \<open>path\<close> field is treated the same way. The walk of the array that follows writes
  every such index again: where the element is a record or an array, the returned data
  hold at that index a container of the same class that the call has newly allocated,
  deep-equal to the element when the element contains no reference, and not the value of
  the index.
\<close>

theorem fast_path_needs_only_a_path:
  "(i < array_length ref \<and>
    fillExisting h byPath ref (VObj n (ClsArray (array_length ref)) []) = Inr filled \<longrightarrow>
      (\<forall>k. truthy (get_prop h ref (Idx i)) \<and>
            to_key h (get_prop h (get_prop h ref (Idx i)) (Name ''path'')) = Some k \<and>
            has_key h byPath k \<longrightarrow>
              get_own filled (Idx i) = Some (assigned_attrs, read_key h byPath k)) \<and>
      (\<not> truthy (get_prop h ref (Idx i)) \<or>
       (\<forall>k. to_key h (get_prop h (get_prop h ref (Idx i)) (Name ''path'')) = Some k \<longrightarrow>
              \<not> has_key h byPath k) \<longrightarrow>
         get_own filled (Idx i) = None)) \<and>
   (well_formed doc \<and> class_of data = class_of doc \<and> (key, arr) \<in> set (for_in doc) \<and> isArray arr \<and>
    (Idx j, e) \<in> set (for_in arr) \<and> isObject e \<and>
    recursiveExtract c doc old path (data, refs, m) = Inr r \<longrightarrow>
      (\<exists>out x a. map_option snd (get_own (fst r) key) = Some out \<and>
                  map_option snd (get_own out (Idx j)) = Some x \<and>
                  class_of x = class_of e \<and> oid_of x = Some a \<and> m \<le> a \<and>
                  (shows_no_reference e \<longrightarrow> deep_equal h x e \<and> deep_equal h e x)))"
proof (intro conjI impI)
  assume a: "i < array_length ref \<and>
    fillExisting h byPath ref (VObj n (ClsArray (array_length ref)) []) = Inr filled"
  then have isa: "isArray ref" by (cases ref; cases "the (class_of ref)") auto
  have pc: "paths_convert h ref" and fl: "filled = fill_all h byPath ref (VObj n (ClsArray (array_length ref)) [])"
    using a by (auto simp: fillExisting_result split: if_splits)
  have own: "get_own filled (Idx i) = map_option (Pair assigned_attrs) (resolved_at h byPath ref i)"
    unfolding fl using isa a by (intro get_own_filled) simp_all
  have conv: "truthy (get_prop h ref (Idx i)) \<Longrightarrow>
              to_key h (get_prop h (get_prop h ref (Idx i)) (Name ''path'')) \<noteq> None"
    using pc a by (simp add: paths_convert_def list_all_iff)
  show "\<forall>k. truthy (get_prop h ref (Idx i)) \<and>
            to_key h (get_prop h (get_prop h ref (Idx i)) (Name ''path'')) = Some k \<and>
            has_key h byPath k \<longrightarrow>
              get_own filled (Idx i) = Some (assigned_attrs, read_key h byPath k)"
    unfolding own by (simp add: resolved_at_def)
  assume "\<not> truthy (get_prop h ref (Idx i)) \<or>
       (\<forall>k. to_key h (get_prop h (get_prop h ref (Idx i)) (Name ''path'')) = Some k \<longrightarrow>
              \<not> has_key h byPath k)"
  then show "get_own filled (Idx i) = None"
    unfolding own by (auto simp: resolved_at_def split: option.splits)
next
  assume a: "well_formed doc \<and> class_of data = class_of doc \<and> (key, arr) \<in> set (for_in doc) \<and> isArray arr \<and>
    (Idx j, e) \<in> set (for_in arr) \<and> isObject e \<and>
    recursiveExtract c doc old path (data, refs, m) = Inr r"
  then have r: "r = walkDoc c doc old path (data, refs, m)"
    by (simp add: walker_returns)
  have wfa: "well_formed arr" using a wf_value by blast
  define old' where "old' = (if old \<noteq> SameAsData \<and> truthy (old_field (c_host c) old data key)
                              then Old (old_field (c_host c) old data key) else SameAsData)"
  obtain at b q where f:
    "get_own (fst r) key
       = Some (at, fst (walkDoc c arr old' (path @ key_str key @ ''.'')
                          (fill_all (c_host c) (c_byPath c) arr (VObj b (ClsArray (array_length arr)) []),
                           q, Suc b)))"
    "m \<le> b"
    unfolding r old'_def using walk_array_field [of doc data key arr c old path refs m] a by metis
  define F where "F = fill_all (c_host c) (c_byPath c) arr (VObj b (ClsArray (array_length arr)) [])"
  define out where "out = fst (walkDoc c arr old' (path @ key_str key @ ''.'') (F, q, Suc b))"
  have cF: "class_of F = class_of arr" unfolding F_def using a by (intro fill_dom(1)) simp
  obtain at' x k where x: "get_own out (Idx j) = Some (at', x)" "oid_of x = Some k" "Suc b \<le> k"
    "class_of x = class_of e" "shows_no_reference e \<longrightarrow> deep_equal h x e \<and> deep_equal h e x"
    unfolding out_def
    using walk_container_field [OF wfa cF, of "Idx j" e c old' "path @ key_str key @ ''.''" q "Suc b" h] a
    by blast
  show "\<exists>out x a. map_option snd (get_own (fst r) key) = Some out \<and>
                  map_option snd (get_own out (Idx j)) = Some x \<and>
                  class_of x = class_of e \<and> oid_of x = Some a \<and> m \<le> a \<and>
                  (shows_no_reference e \<longrightarrow> deep_equal h x e \<and> deep_equal h e x)"
    using f x by (intro exI [of _ out] exI [of _ x] exI [of _ k]) (simp add: out_def F_def)
qed

theorem fast_path_needs_only_a_path_witness:
  "1 < array_length ex_array \<and>
   fillExisting ex_host (subsByPath ex_subs) ex_array (VObj 10 (ClsArray (array_length ex_array)) [])
     = Inr (projr (fillExisting ex_host (subsByPath ex_subs) ex_array
                     (VObj 10 (ClsArray (array_length ex_array)) []))) \<and>
   \<not> isDocumentRef (get_prop ex_host ex_array (Idx 1)) \<and>
   truthy (get_prop ex_host ex_array (Idx 1)) \<and>
   to_key ex_host (get_prop ex_host (get_prop ex_host ex_array (Idx 1)) (Name ''path'')) = Some ''users/1'' \<and>
   has_key ex_host (subsByPath ex_subs) ''users/1'' \<and>
   get_own (projr (fillExisting ex_host (subsByPath ex_subs) ex_array
                     (VObj 10 (ClsArray (array_length ex_array)) []))) (Idx 1)
     = Some (assigned_attrs, ex_bob) \<and>
   fillExisting ex_host [] (VObj 53 (ClsArray 1)
        [(Idx 0, assigned_attrs, VObj 54 ClsPlain [(Name ''path'', assigned_attrs, VStr ''constructor'')])])
      (VObj 10 (ClsArray 1) [])
     = Inr (VObj 10 (ClsArray 1) [(Idx 0, assigned_attrs, VFun ''Object'')]) \<and>
   \<not> truthy (get_prop ex_host ex_array (Idx 0)) \<and>
   get_own (projr (fillExisting ex_host (subsByPath ex_subs) ex_array
                     (VObj 10 (ClsArray (array_length ex_array)) []))) (Idx 0) = None \<and>
   well_formed ex_array_doc \<and> class_of (VObj 10 ClsPlain []) = class_of ex_array_doc \<and>
   (Name ''a'', ex_array) \<in> set (for_in ex_array_doc) \<and> isArray ex_array \<and>
   (Idx 1, VObj 4 ClsPlain [(Name ''path'', assigned_attrs, VStr ''users/1'')]) \<in> set (for_in ex_array) \<and>
   isObject (VObj 4 ClsPlain [(Name ''path'', assigned_attrs, VStr ''users/1'')]) \<and>
   shows_no_reference (VObj 4 ClsPlain [(Name ''path'', assigned_attrs, VStr ''users/1'')]) \<and>
   recursiveExtract (ex_ctx ex_subs) ex_array_doc (Old VUndefined) [] (VObj 10 ClsPlain [], [], 11)
     = Inr (projr (recursiveExtract (ex_ctx ex_subs) ex_array_doc (Old VUndefined) []
                     (VObj 10 ClsPlain [], [], 11))) \<and>
   (\<exists>out x a. map_option snd
                (get_own (fst (projr (recursiveExtract (ex_ctx ex_subs) ex_array_doc (Old VUndefined) []
                                        (VObj 10 ClsPlain [], [], 11)))) (Name ''a'')) = Some out \<and>
              map_option snd (get_own out (Idx 1)) = Some x \<and>
              oid_of x = Some a \<and> 11 \<le> a \<and>
              deep_equal ex_host x (VObj 4 ClsPlain [(Name ''path'', assigned_attrs, VStr ''users/1'')]))"
proof -
  let ?e = "VObj 4 ClsPlain [(Name ''path'', assigned_attrs, VStr ''users/1'')]"
  let ?F = "projr (fillExisting ex_host (subsByPath ex_subs) ex_array
                     (VObj 10 (ClsArray (array_length ex_array)) []))"
  let ?r = "projr (recursiveExtract (ex_ctx ex_subs) ex_array_doc (Old VUndefined) []
                     (VObj 10 ClsPlain [], [], 11))"
  have h1: "1 < array_length ex_array" by (simp add: ex_array_def)
  have h0: "0 < array_length ex_array" by (simp add: ex_array_def)
  have h2: "fillExisting ex_host (subsByPath ex_subs) ex_array (VObj 10 (ClsArray (array_length ex_array)) [])
              = Inr ?F"
    by code_simp
  have h3: "truthy (get_prop ex_host ex_array (Idx 1))" by (simp add: ex_array_def)
  have h4: "to_key ex_host (get_prop ex_host (get_prop ex_host ex_array (Idx 1)) (Name ''path'')) = Some ''users/1''"
    by (simp add: ex_array_def)
  have h5: "has_key ex_host (subsByPath ex_subs) ''users/1''"
    by (simp add: has_key_def ex_subs_def subsByPath_def)
  have rk: "read_key ex_host (subsByPath ex_subs) ''users/1'' = ex_bob"
    by (simp add: read_key_def ex_subs_def subsByPath_def)
  have h6: "\<not> isDocumentRef (get_prop ex_host ex_array (Idx 1))" by (simp add: ex_array_def)
  have h7: "\<not> truthy (get_prop ex_host ex_array (Idx 0))" by (simp add: ex_array_def)
  have inh: "fillExisting ex_host [] (VObj 53 (ClsArray 1)
        [(Idx 0, assigned_attrs, VObj 54 ClsPlain [(Name ''path'', assigned_attrs, VStr ''constructor'')])])
      (VObj 10 (ClsArray 1) [])
     = Inr (VObj 10 (ClsArray 1) [(Idx 0, assigned_attrs, VFun ''Object'')])"
    by code_simp
  have g1: "well_formed ex_array_doc" by (simp add: ex_array_doc_def ex_array_def)
  have g2: "class_of (VObj 10 ClsPlain []) = class_of ex_array_doc" by (simp add: ex_array_doc_def)
  have g3: "(Name ''a'', ex_array) \<in> set (for_in ex_array_doc)"
    by (simp add: ex_array_doc_def assigned_attrs_def)
  have g4: "isArray ex_array" by (simp add: ex_array_def)
  have g5: "(Idx 1, ?e) \<in> set (for_in ex_array)" by (simp add: ex_array_def assigned_attrs_def)
  have g6: "isObject ?e" by simp
  have g7: "shows_no_reference ?e" by (simp add: shows_VObj props_show_no_reference_def)
  have g8: "recursiveExtract (ex_ctx ex_subs) ex_array_doc (Old VUndefined) [] (VObj 10 ClsPlain [], [], 11)
              = Inr ?r"
    by code_simp
  note t1 = fast_path_needs_only_a_path [THEN conjunct1, rule_format, OF conjI, OF h1 h2]
  note t0 = fast_path_needs_only_a_path [THEN conjunct1, rule_format, OF conjI, OF h0 h2]
  have a: "get_own ?F (Idx 1) = Some (assigned_attrs, ex_bob)"
    using t1 [THEN conjunct1, rule_format, of "''users/1''"] h3 h4 h5 rk by simp
  have b: "get_own ?F (Idx 0) = None"
    using t0 [THEN conjunct2] h7 by simp
  obtain out x k where c: "map_option snd (get_own (fst ?r) (Name ''a'')) = Some out"
    "map_option snd (get_own out (Idx 1)) = Some x" "oid_of x = Some k" "11 \<le> k"
    "shows_no_reference ?e \<longrightarrow> deep_equal ex_host x ?e \<and> deep_equal ex_host ?e x"
    using fast_path_needs_only_a_path [THEN conjunct2, rule_format,
            of ex_array_doc "VObj 10 ClsPlain []" "Name ''a''" ex_array 1 ?e "ex_ctx ex_subs"
               "Old VUndefined" "[]" "[]" 11 ?r ex_host]
          g1 g2 g3 g4 g5 g6 g8
    by blast
  have d: "\<exists>out x a. map_option snd (get_own (fst ?r) (Name ''a'')) = Some out \<and>
              map_option snd (get_own out (Idx 1)) = Some x \<and>
              oid_of x = Some a \<and> 11 \<le> a \<and> deep_equal ex_host x ?e"
    using c g7 by blast
  show ?thesis
    using h1 h2 h3 h4 h5 h6 h7 inh a b g1 g2 g3 g4 g5 g6 g7 g8 d by simp
qed
section \<open>Array fields\<close>

text \<open>
  Claim C2, as stated, fails: an index of the input array that holds a value and has no
  match in the Subscription Path Index does not remain a hole in the output. In
  \<open>{ a: [7, <hole>, <ref users/1>] }\<close> index 0 has no match, and the output array
  holds \<open>7\<close> there.
\<close>

theorem array_unmatched_index_counterexample:
  "paths_convert ex_host ex_list \<and>
   \<not> has_key ex_host (subsByPath ex_subs_list) ''undefined'' \<and>
   get_prop ex_host (get_prop ex_host ex_list (Idx 0)) (Name ''path'') = VUndefined \<and>
   get_own (get_prop ex_host
              (fst (fst (projr (extractRefs ex_host ex_list_doc VUndefined (ex_registry ex_subs_list)
                                  ex_opts 10))))
              (Name ''a'')) (Idx 0)
     = Some (assigned_attrs, VNum 7)"
  by code_simp

text \<open>
  Claim C2, amended. For every array-valued field the output holds under that key an
  array that the call has newly allocated, of the same length as the input array, and an
  index is an unset hole of the output exactly when it is a hole of the input (holes are
  never removed and never set to \<open>null\<close>). Every other index is written by the generic
  per-field logic after the pre-fill: an element that is neither a reference nor a
  container is copied; a reference element is replaced by its path string when its
  subscription key \<open>path + key + '.' + i\<close> is not found in the registry, and otherwise
  by what the read of index \<open>i\<close> of the old array returns, where the old array is
  \<open>oldDoc[key]\<close> when that read returns a truthy value and the pre-filled output array
  otherwise, so that a slot pre-filled from the Subscription Path Index is kept in that
  last case only.
\<close>

theorem array_field_decomposition:
  assumes "well_formed doc" "class_of data = class_of doc" "(key, arr) \<in> set (for_in doc)" "isArray arr"
    and "recursiveExtract c doc old path (data, refs, n) = Inr r"
  shows "\<exists>out m. map_option snd (get_own (fst r) key) = Some out \<and>
           class_of out = Some (ClsArray (array_length arr)) \<and>
           oid_of out = Some m \<and> n \<le> m \<and> m < snd (snd r) \<and>
           (\<forall>i. (get_own out (Idx i) = None) = (get_own arr (Idx i) = None)) \<and>
           (\<forall>i e. (Idx i, e) \<in> set (for_in arr) \<and> \<not> isDocumentRef e \<and> \<not> isObject e \<longrightarrow>
                    map_option snd (get_own out (Idx i)) = Some e) \<and>
           (\<forall>i p cv. (Idx i, VRef p cv) \<in> set (for_in arr) \<longrightarrow>
                    map_option snd (get_own out (Idx i)) =
                      Some (if \<not> in_registry (c_host c) (c_subs c) (path @ key_str key @ ''.'' @ show_nat i)
                            then VStr p
                            else if old \<noteq> SameAsData \<and> truthy (old_field (c_host c) old data key)
                            then get_prop (c_host c) (old_field (c_host c) old data key) (Idx i)
                            else (case resolved_at (c_host c) (c_byPath c) arr i of
                                    Some v \<Rightarrow> v | None \<Rightarrow> VUndefined)))"
proof -
  have r: "r = walkDoc c doc old path (data, refs, n)"
    using assms(5) by (rule walker_returns)
  define old' where "old' = (if old \<noteq> SameAsData \<and> truthy (old_field (c_host c) old data key)
                              then Old (old_field (c_host c) old data key) else SameAsData)"
  define path' where "path' = path @ key_str key @ ''.''"
  obtain at m q where f:
    "get_own (fst r) key
       = Some (at, fst (walkDoc c arr old' path'
                          (fill_all (c_host c) (c_byPath c) arr (VObj m (ClsArray (array_length arr)) []),
                           q, Suc m)))"
    "n \<le> m" "m < snd (snd r)"
    unfolding r old'_def path'_def using walk_array_field [OF assms(1,2,3,4)] by metis
  define filled where "filled = fill_all (c_host c) (c_byPath c) arr (VObj m (ClsArray (array_length arr)) [])"
  define out where "out = fst (walkDoc c arr old' path' (filled, q, Suc m))"
  have at_key: "map_option snd (get_own (fst r) key) = Some out"
    using f(1) by (simp add: out_def filled_def)
  have wfa: "well_formed arr"
    using assms(1,3) by (cases doc) auto
  have oa: "isObject arr" using assms(4) by (cases arr) auto
  have ca: "class_of arr = Some (ClsArray (array_length arr))"
    using assms(4) by (cases arr; cases "the (class_of arr)") auto
  have cf: "class_of filled = class_of arr"
    unfolding filled_def using assms(4) by (rule fill_dom(1))
  have c_out: "class_of out = class_of arr"
    unfolding out_def using wfa cf oa by (rule walkDoc_shape(1))
  have oid: "oid_of out = Some m"
    unfolding out_def filled_def by (simp add: walk_oid oid_of_fill)
  have holes: "\<And>i. (get_own out (Idx i) = None) = (get_own arr (Idx i) = None)"
  proof -
    fix i
    have "(get_own out (Idx i) = None) = (get_own filled (Idx i) = None \<and> get_own arr (Idx i) = None)"
      unfolding out_def using wfa cf oa by (rule walkDoc_shape(2))
    moreover have "get_own filled (Idx i) \<noteq> None \<Longrightarrow> get_own arr (Idx i) \<noteq> None"
      unfolding filled_def using assms(4) by (rule fill_dom(2))
    ultimately show "(get_own out (Idx i) = None) = (get_own arr (Idx i) = None)" by blast
  qed
  have elem: "\<And>i e. (Idx i, e) \<in> set (for_in arr) \<Longrightarrow>
      \<exists>t. get_own out (Idx i) = get_own (fst (walkField c (Idx i) e old' path' t)) (Idx i) \<and>
          class_of (fst t) = class_of arr \<and> get_own (fst t) (Idx i) = get_own filled (Idx i)"
    unfolding out_def using walk_reaches_field [OF wfa cf] by metis
  have plain: "\<And>i e. (Idx i, e) \<in> set (for_in arr) \<and> \<not> isDocumentRef e \<and> \<not> isObject e \<Longrightarrow>
                    map_option snd (get_own out (Idx i)) = Some e"
  proof -
    fix i e assume a: "(Idx i, e) \<in> set (for_in arr) \<and> \<not> isDocumentRef e \<and> \<not> isObject e"
    then obtain t where t: "get_own out (Idx i) = get_own (fst (walkField c (Idx i) e old' path' t)) (Idx i)"
      "class_of (fst t) = class_of arr"
      using elem by blast
    have ot: "isObject (fst t)" using t(2) ca by (simp add: class_isObject)
    have na: "\<not> isArray e" using a by (cases e) auto
    have "fst (walkField c (Idx i) e old' path' t) = set_prop (fst t) (Idx i) e"
      using a na by (cases t) (simp add: walkField.simps)
    then show "map_option snd (get_own out (Idx i)) = Some e"
      using t(1) ot by (simp add: get_own_set_prop)
  qed
  have refs_case: "\<And>i p cv. (Idx i, VRef p cv) \<in> set (for_in arr) \<Longrightarrow>
                    map_option snd (get_own out (Idx i)) =
                      Some (if \<not> in_registry (c_host c) (c_subs c) (path @ key_str key @ ''.'' @ show_nat i)
                            then VStr p
                            else if old \<noteq> SameAsData \<and> truthy (old_field (c_host c) old data key)
                            then get_prop (c_host c) (old_field (c_host c) old data key) (Idx i)
                            else (case resolved_at (c_host c) (c_byPath c) arr i of
                                    Some v \<Rightarrow> v | None \<Rightarrow> VUndefined))"
  proof -
    fix i p cv assume a: "(Idx i, VRef p cv) \<in> set (for_in arr)"
    then obtain t where t: "get_own out (Idx i) = get_own (fst (walkField c (Idx i) (VRef p cv) old' path' t)) (Idx i)"
      "class_of (fst t) = class_of arr" "get_own (fst t) (Idx i) = get_own filled (Idx i)"
      using elem by blast
    have ot: "isObject (fst t)" using t(2) ca by (simp add: class_isObject)
    have il: "i < array_length arr"
      using for_in_key_ok [OF wfa ca a] by simp
    have gf: "get_own filled (Idx i) = map_option (Pair assigned_attrs) (resolved_at (c_host c) (c_byPath c) arr i)"
      unfolding filled_def using assms(4) il by (rule get_own_filled)
    have rd: "get_prop (c_host c) (fst t) (Idx i) = (case resolved_at (c_host c) (c_byPath c) arr i of
                                    Some v \<Rightarrow> v | None \<Rightarrow> VUndefined)"
      using t(3) gf by (simp add: get_prop_idx [OF ot] split: option.splits)
    have "fst (walkField c (Idx i) (VRef p cv) old' path' t)
          = set_prop (fst t) (Idx i)
              (if in_registry (c_host c) (c_subs c) (path' @ show_nat i)
               then old_field (c_host c) old' (fst t) (Idx i)
               else VStr p)"
      by (cases t) (simp add: walkField.simps Let_def)
    then show "map_option snd (get_own out (Idx i)) =
                      Some (if \<not> in_registry (c_host c) (c_subs c) (path @ key_str key @ ''.'' @ show_nat i)
                            then VStr p
                            else if old \<noteq> SameAsData \<and> truthy (old_field (c_host c) old data key)
                            then get_prop (c_host c) (old_field (c_host c) old data key) (Idx i)
                            else (case resolved_at (c_host c) (c_byPath c) arr i of
                                    Some v \<Rightarrow> v | None \<Rightarrow> VUndefined))"
      using t(1) ot rd by (simp add: get_own_set_prop old'_def path'_def)
  qed
  show ?thesis
    using at_key c_out ca oid f(2,3) holes plain refs_case
    by (intro exI [of _ out] exI [of _ m]) simp
qed

theorem array_field_decomposition_witness:
  "well_formed ex_list_doc \<and> class_of (VObj 10 ClsPlain []) = class_of ex_list_doc \<and>
   (Name ''a'', ex_list) \<in> set (for_in ex_list_doc) \<and> isArray ex_list \<and>
   recursiveExtract (ex_ctx ex_subs_list) ex_list_doc (Old VUndefined) [] (VObj 10 ClsPlain [], [], 11)
     = Inr (projr (recursiveExtract (ex_ctx ex_subs_list) ex_list_doc (Old VUndefined) []
                     (VObj 10 ClsPlain [], [], 11))) \<and>
   (Idx 0, VNum 7) \<in> set (for_in ex_list) \<and> \<not> isDocumentRef (VNum 7) \<and> \<not> isObject (VNum 7) \<and>
   (Idx 2, VRef ''users/1'' None) \<in> set (for_in ex_list) \<and>
   (\<exists>out. map_option snd
            (get_own (fst (projr (recursiveExtract (ex_ctx ex_subs_list) ex_list_doc (Old VUndefined) []
                                    (VObj 10 ClsPlain [], [], 11)))) (Name ''a'')) = Some out \<and>
          class_of out = Some (ClsArray 3) \<and>
          oid_of out = Some 11 \<and>
          get_own out (Idx 1) = None \<and>
          map_option snd (get_own out (Idx 0)) = Some (VNum 7) \<and>
          map_option snd (get_own out (Idx 2)) = Some ex_bob) \<and>
   well_formed ex_ctor_doc \<and> class_of (VObj 10 ClsPlain []) = class_of ex_ctor_doc \<and>
   (Name ''constructor'', VObj 53 (ClsArray 1) [(Idx 0, assigned_attrs, ex_ref)]) \<in> set (for_in ex_ctor_doc) \<and>
   isArray (VObj 53 (ClsArray 1) [(Idx 0, assigned_attrs, ex_ref)]) \<and>
   recursiveExtract (ex_ctx ex_subs_ctor) ex_ctor_doc (Old VUndefined) [] (VObj 10 ClsPlain [], [], 11)
     = Inr (projr (recursiveExtract (ex_ctx ex_subs_ctor) ex_ctor_doc (Old VUndefined) []
                     (VObj 10 ClsPlain [], [], 11))) \<and>
   (Idx 0, VRef ''users/1'' None) \<in> set (for_in (VObj 53 (ClsArray 1) [(Idx 0, assigned_attrs, ex_ref)])) \<and>
   (\<exists>out. map_option snd
            (get_own (fst (projr (recursiveExtract (ex_ctx ex_subs_ctor) ex_ctor_doc (Old VUndefined) []
                                    (VObj 10 ClsPlain [], [], 11)))) (Name ''constructor'')) = Some out \<and>
          map_option snd (get_own out (Idx 0)) = Some VUndefined)"
proof -
  have h1: "well_formed ex_list_doc"
    by (simp add: ex_list_doc_def ex_list_def ex_ref_def)
  have h2: "class_of (VObj 10 ClsPlain []) = class_of ex_list_doc"
    by (simp add: ex_list_doc_def)
  have h3: "(Name ''a'', ex_list) \<in> set (for_in ex_list_doc)"
    by (simp add: ex_list_doc_def assigned_attrs_def)
  have h4: "isArray ex_list"
    by (simp add: ex_list_def)
  have h5: "recursiveExtract (ex_ctx ex_subs_list) ex_list_doc (Old VUndefined) [] (VObj 10 ClsPlain [], [], 11)
     = Inr (projr (recursiveExtract (ex_ctx ex_subs_list) ex_list_doc (Old VUndefined) []
                     (VObj 10 ClsPlain [], [], 11)))"
    by code_simp
  have e0: "(Idx 0, VNum 7) \<in> set (for_in ex_list)"
    and e2: "(Idx 2, VRef ''users/1'' None) \<in> set (for_in ex_list)"
    and e1: "get_own ex_list (Idx 1) = None"
    and len: "array_length ex_list = 3"
    by (simp_all add: ex_list_def ex_ref_def assigned_attrs_def get_own_def)
  have bound: "in_registry (c_host (ex_ctx ex_subs_list)) (c_subs (ex_ctx ex_subs_list))
                 ([] @ key_str (Name ''a'') @ ''.'' @ show_nat 2)"
    by code_simp
  have noold: "\<not> truthy (old_field (c_host (ex_ctx ex_subs_list)) (Old VUndefined) (VObj 10 ClsPlain []) (Name ''a''))"
    by code_simp
  have found: "resolved_at (c_host (ex_ctx ex_subs_list)) (c_byPath (ex_ctx ex_subs_list)) ex_list 2 = Some ex_bob"
    by code_simp
  obtain out m where out:
    "map_option snd
       (get_own (fst (projr (recursiveExtract (ex_ctx ex_subs_list) ex_list_doc (Old VUndefined) []
                               (VObj 10 ClsPlain [], [], 11)))) (Name ''a'')) = Some out"
    "class_of out = Some (ClsArray (array_length ex_list))"
    "oid_of out = Some m" "11 \<le> m"
    "\<forall>i. (get_own out (Idx i) = None) = (get_own ex_list (Idx i) = None)"
    "\<forall>i e. (Idx i, e) \<in> set (for_in ex_list) \<and> \<not> isDocumentRef e \<and> \<not> isObject e \<longrightarrow>
                    map_option snd (get_own out (Idx i)) = Some e"
    "\<forall>i p cv. (Idx i, VRef p cv) \<in> set (for_in ex_list) \<longrightarrow>
                    map_option snd (get_own out (Idx i)) =
                      Some (if \<not> in_registry (c_host (ex_ctx ex_subs_list)) (c_subs (ex_ctx ex_subs_list))
                                   ([] @ key_str (Name ''a'') @ ''.'' @ show_nat i)
                            then VStr p
                            else if Old VUndefined \<noteq> SameAsData \<and>
                                    truthy (old_field (c_host (ex_ctx ex_subs_list)) (Old VUndefined)
                                              (VObj 10 ClsPlain []) (Name ''a''))
                            then get_prop (c_host (ex_ctx ex_subs_list))
                                   (old_field (c_host (ex_ctx ex_subs_list)) (Old VUndefined)
                                      (VObj 10 ClsPlain []) (Name ''a'')) (Idx i)
                            else (case resolved_at (c_host (ex_ctx ex_subs_list)) (c_byPath (ex_ctx ex_subs_list)) ex_list i of
                                    Some v \<Rightarrow> v | None \<Rightarrow> VUndefined))"
    using array_field_decomposition [OF h1 h2 h3 h4 h5] by blast
  have which: "oid_of (get_prop ex_host
                  (fst (projr (recursiveExtract (ex_ctx ex_subs_list) ex_list_doc (Old VUndefined) []
                                 (VObj 10 ClsPlain [], [], 11)))) (Name ''a'')) = Some 11"
    by code_simp
  have "get_prop ex_host
                  (fst (projr (recursiveExtract (ex_ctx ex_subs_list) ex_list_doc (Old VUndefined) []
                                 (VObj 10 ClsPlain [], [], 11)))) (Name ''a'') = out"
    using out(1)
    by (cases "fst (projr (recursiveExtract (ex_ctx ex_subs_list) ex_list_doc (Old VUndefined) []
                                 (VObj 10 ClsPlain [], [], 11)))")
       (auto simp: get_own_def)
  then have m: "oid_of out = Some 11" using which by simp
  have o0: "map_option snd (get_own out (Idx 0)) = Some (VNum 7)"
    using out(6) [rule_format, of 0 "VNum 7"] e0 by simp
  have o2: "map_option snd (get_own out (Idx 2)) = Some ex_bob"
    using out(7) [rule_format, OF e2] bound noold found by simp
  have first: "\<exists>out. map_option snd
            (get_own (fst (projr (recursiveExtract (ex_ctx ex_subs_list) ex_list_doc (Old VUndefined) []
                                    (VObj 10 ClsPlain [], [], 11)))) (Name ''a'')) = Some out \<and>
          class_of out = Some (ClsArray 3) \<and>
          oid_of out = Some 11 \<and>
          get_own out (Idx 1) = None \<and>
          map_option snd (get_own out (Idx 0)) = Some (VNum 7) \<and>
          map_option snd (get_own out (Idx 2)) = Some ex_bob"
    using out(1,2,5) m e1 len o0 o2 by auto
  let ?arr = "VObj 53 (ClsArray 1) [(Idx 0, assigned_attrs, ex_ref)]"
  have g1: "well_formed ex_ctor_doc"
    by (simp add: ex_ctor_doc_def ex_ref_def)
  have g2: "class_of (VObj 10 ClsPlain []) = class_of ex_ctor_doc"
    by (simp add: ex_ctor_doc_def)
  have g3: "(Name ''constructor'', ?arr) \<in> set (for_in ex_ctor_doc)"
    by (simp add: ex_ctor_doc_def assigned_attrs_def)
  have g4: "isArray ?arr"
    by simp
  have g5: "recursiveExtract (ex_ctx ex_subs_ctor) ex_ctor_doc (Old VUndefined) [] (VObj 10 ClsPlain [], [], 11)
     = Inr (projr (recursiveExtract (ex_ctx ex_subs_ctor) ex_ctor_doc (Old VUndefined) []
                     (VObj 10 ClsPlain [], [], 11)))"
    by code_simp
  have g6: "(Idx 0, VRef ''users/1'' None) \<in> set (for_in ?arr)"
    by (simp add: ex_ref_def assigned_attrs_def)
  have bound': "in_registry (c_host (ex_ctx ex_subs_ctor)) (c_subs (ex_ctx ex_subs_ctor))
                 ([] @ key_str (Name ''constructor'') @ ''.'' @ show_nat 0)"
    by code_simp
  have old': "truthy (old_field (c_host (ex_ctx ex_subs_ctor)) (Old VUndefined) (VObj 10 ClsPlain [])
                        (Name ''constructor''))"
    by code_simp
  have read': "get_prop (c_host (ex_ctx ex_subs_ctor))
                 (old_field (c_host (ex_ctx ex_subs_ctor)) (Old VUndefined) (VObj 10 ClsPlain [])
                    (Name ''constructor'')) (Idx 0) = VUndefined"
    by code_simp
  obtain out' where out':
    "map_option snd
       (get_own (fst (projr (recursiveExtract (ex_ctx ex_subs_ctor) ex_ctor_doc (Old VUndefined) []
                               (VObj 10 ClsPlain [], [], 11)))) (Name ''constructor'')) = Some out'"
    "\<forall>i p cv. (Idx i, VRef p cv) \<in> set (for_in ?arr) \<longrightarrow>
                    map_option snd (get_own out' (Idx i)) =
                      Some (if \<not> in_registry (c_host (ex_ctx ex_subs_ctor)) (c_subs (ex_ctx ex_subs_ctor))
                                   ([] @ key_str (Name ''constructor'') @ ''.'' @ show_nat i)
                            then VStr p
                            else if Old VUndefined \<noteq> SameAsData \<and>
                                    truthy (old_field (c_host (ex_ctx ex_subs_ctor)) (Old VUndefined)
                                              (VObj 10 ClsPlain []) (Name ''constructor''))
                            then get_prop (c_host (ex_ctx ex_subs_ctor))
                                   (old_field (c_host (ex_ctx ex_subs_ctor)) (Old VUndefined)
                                      (VObj 10 ClsPlain []) (Name ''constructor'')) (Idx i)
                            else (case resolved_at (c_host (ex_ctx ex_subs_ctor)) (c_byPath (ex_ctx ex_subs_ctor)) ?arr i of
                                    Some v \<Rightarrow> v | None \<Rightarrow> VUndefined))"
    using array_field_decomposition [OF g1 g2 g3 g4 g5] by blast
  have "map_option snd (get_own out' (Idx 0)) = Some VUndefined"
    using out'(2) [rule_format, OF g6] bound' old' read' by simp
  then have second: "\<exists>out. map_option snd
            (get_own (fst (projr (recursiveExtract (ex_ctx ex_subs_ctor) ex_ctor_doc (Old VUndefined) []
                                    (VObj 10 ClsPlain [], [], 11)))) (Name ''constructor'')) = Some out \<and>
          map_option snd (get_own out (Idx 0)) = Some VUndefined"
    using out'(1) by blast
  show ?thesis
    using h1 h2 h3 h4 h5 e0 e2 first g1 g2 g3 g4 g5 g6 second by simp
qed
section \<open>Hidden fields\<close>

text \<open>
  Claim C6. For a document \<open>doc\<close> the walker processes and every own property of
  \<open>doc\<close> whose descriptor is non-enumerable: the property is on the output, with the same
  descriptor and value, already after the first pass over the own property names (before
  any enumerable field is processed); it is still there, unchanged, when the call
  returns; and a field-by-field enumeration of the output does not visit it.
\<close>

theorem hidden_fields_copied_first:
  assumes "well_formed doc" "class_of data = class_of doc" "distinct_keys data"
    and "get_own doc k = Some (at, v)" "\<not> enumerable at"
  shows "get_own (copy_hidden doc data) k = Some (at, v) \<and>
         recursiveExtract c doc old path (data, refs, n)
           = extractKeys c (for_in doc) old path (copy_hidden doc data, refs, n) \<and>
         (\<forall>r. recursiveExtract c doc old path (data, refs, n) = Inr r \<longrightarrow>
                get_own (fst r) k = Some (at, v) \<and> k \<notin> fst ` set (for_in (fst r)))"
proof (intro conjI allI impI)
  have obj: "isObject doc" using assms(4) by (cases doc) (auto simp: get_own_def)
  have dk: "distinct_keys doc" using assms(1) by (rule wf_distinct_keys)
  show copied: "get_own (copy_hidden doc data) k = Some (at, v)"
    using get_own_copy_hidden(1) [OF assms(1,2) obj, of k] assms(4,5) by simp
  show "recursiveExtract c doc old path (data, refs, n)
           = extractKeys c (for_in doc) old path (copy_hidden doc data, refs, n)"
    by (simp add: recursiveExtract.simps)
  fix r assume "recursiveExtract c doc old path (data, refs, n) = Inr r"
  then have r: "r = walkDoc c doc old path (data, refs, n)" by (rule walker_returns)
  have notin: "k \<notin> fst ` set (for_in doc)"
    using assms(4,5) dk by (auto simp: for_in_iff)
  show final: "get_own (fst r) k = Some (at, v)"
    using notin copied by (simp add: r walkDoc.simps walkKeys_frame)
  have "distinct_keys (fst r)"
    using assms(3) distinct_keys_copy_hidden [OF assms(1,2) obj]
    by (simp add: r walkDoc.simps walkKeys_distinct_keys)
  then show "k \<notin> fst ` set (for_in (fst r))"
    using final assms(5) by (auto simp: for_in_iff)
qed

theorem hidden_fields_copied_first_witness:
  "well_formed ex_doc \<and> class_of (VObj 10 ClsPlain []) = class_of ex_doc \<and>
   distinct_keys (VObj 10 ClsPlain []) \<and>
   get_own ex_doc (Name ''.id'') = Some (defined_attrs, VStr ''doc1'') \<and>
   \<not> enumerable defined_attrs \<and>
   recursiveExtract (ex_ctx []) ex_doc (Old VUndefined) [] (VObj 10 ClsPlain [], [], 11)
     = Inr (projr (recursiveExtract (ex_ctx []) ex_doc (Old VUndefined) [] (VObj 10 ClsPlain [], [], 11))) \<and>
   get_own (copy_hidden ex_doc (VObj 10 ClsPlain [])) (Name ''.id'')
     = Some (defined_attrs, VStr ''doc1'') \<and>
   get_own (fst (projr (recursiveExtract (ex_ctx []) ex_doc (Old VUndefined) []
                          (VObj 10 ClsPlain [], [], 11)))) (Name ''.id'')
     = Some (defined_attrs, VStr ''doc1'') \<and>
   Name ''.id'' \<notin> fst ` set (for_in (fst (projr (recursiveExtract (ex_ctx []) ex_doc (Old VUndefined) []
                                                      (VObj 10 ClsPlain [], [], 11)))))"
proof -
  have h1: "well_formed ex_doc"
    by (simp add: ex_doc_def ex_ref_def)
  have h2: "class_of (VObj 10 ClsPlain []) = class_of ex_doc"
    by (simp add: ex_doc_def)
  have h3: "distinct_keys (VObj 10 ClsPlain [])"
    by (simp add: distinct_keys_def)
  have h4: "get_own ex_doc (Name ''.id'') = Some (defined_attrs, VStr ''doc1'')"
    by (simp add: ex_doc_def get_own_def)
  have h5: "\<not> enumerable defined_attrs"
    by (simp add: defined_attrs_def)
  have h6: "recursiveExtract (ex_ctx []) ex_doc (Old VUndefined) [] (VObj 10 ClsPlain [], [], 11)
     = Inr (projr (recursiveExtract (ex_ctx []) ex_doc (Old VUndefined) [] (VObj 10 ClsPlain [], [], 11)))"
    by code_simp
  note t = hidden_fields_copied_first [OF h1 h2 h3 h4 h5, of "ex_ctx []" "Old VUndefined" "[]" "[]" 11]
  have a: "get_own (copy_hidden ex_doc (VObj 10 ClsPlain [])) (Name ''.id'')
     = Some (defined_attrs, VStr ''doc1'')"
    using t by blast
  have b: "get_own (fst (projr (recursiveExtract (ex_ctx []) ex_doc (Old VUndefined) []
                          (VObj 10 ClsPlain [], [], 11)))) (Name ''.id'')
     = Some (defined_attrs, VStr ''doc1'') \<and>
   Name ''.id'' \<notin> fst ` set (for_in (fst (projr (recursiveExtract (ex_ctx []) ex_doc (Old VUndefined) []
                                                      (VObj 10 ClsPlain [], [], 11)))))"
    using t h6 by blast
  show ?thesis
    using h1 h2 h3 h4 h5 h6 a b by simp
qed
section \<open>Values the walker does not decompose\<close>

text \<open>
  Claim C8. When the top-level input is not a structured plain object, \<open>extractRefs\<close>
  returns the input itself with an empty reference map (and allocates nothing). Inside a
  document, every enumerable field whose value is neither a reference nor a container
  (\<open>null\<close>, \<open>undefined\<close>, an opaque leaf, or any other value the classification does
  not recognise) is in the output under the same key with the same value. The claim that
  no input shape makes the walker raise an error does not hold of the code: the loop that
  pre-fills a new array evaluates \<open>newRef.path in subsByPath\<close> for every truthy element
  of the array, whether or not it is a reference, and the conversion of \<open>newRef.path\<close>
  to a property key throws a \<open>TypeError\<close> when that value is an object without a
  method that returns a primitive, as in \<open>{ a: [{ path: { toString: "x" } }] }\<close>. The
  call returns a result exactly when every such conversion succeeds, and raises the
  \<open>TypeError\<close> otherwise.
\<close>

theorem extractRefs_raises_exactly:
  "(\<not> isPOJO doc \<longrightarrow> extractRefs h doc oldDoc reg opts n = Inr ((doc, []), n)) \<and>
   (isPOJO doc \<and> convertible h doc \<longrightarrow> (\<exists>r. extractRefs h doc oldDoc reg opts n = Inr r)) \<and>
   (isPOJO doc \<and> \<not> convertible h doc \<longrightarrow> extractRefs h doc oldDoc reg opts n = Inl TypeError) \<and>
   (well_formed doc \<and> class_of data = class_of doc \<and> (key, v) \<in> set (for_in doc) \<and>
    \<not> isDocumentRef v \<and> \<not> isObject v \<and>
    recursiveExtract c doc old path (data, refs, m) = Inr r \<longrightarrow>
      map_option snd (get_own (fst r) key) = Some v)"
proof (intro conjI impI)
  assume "\<not> isPOJO doc"
  then show "extractRefs h doc oldDoc reg opts n = Inr ((doc, []), n)"
    by (simp add: extractRefs_def)
next
  assume "isPOJO doc \<and> convertible h doc"
  then show "\<exists>r. extractRefs h doc oldDoc reg opts n = Inr r"
    by (simp add: extractRefs_result Let_def)
next
  assume "isPOJO doc \<and> \<not> convertible h doc"
  then show "extractRefs h doc oldDoc reg opts n = Inl TypeError"
    by (simp add: extractRefs_result)
next
  assume a: "well_formed doc \<and> class_of data = class_of doc \<and> (key, v) \<in> set (for_in doc) \<and>
    \<not> isDocumentRef v \<and> \<not> isObject v \<and>
    recursiveExtract c doc old path (data, refs, m) = Inr r"
  then have r: "r = walkDoc c doc old path (data, refs, m)"
    by (simp add: walker_returns)
  obtain s where s:
    "get_own (fst (walkDoc c doc old path (data, refs, m))) key
       = get_own (fst (walkField c key v old path s)) key"
    "class_of (fst s) = class_of doc"
    using a by (metis walk_reaches_field)
  have obj: "isObject (fst s)"
    using s(2) a by (cases "fst s"; cases doc) auto
  have na: "\<not> isArray v" using a by (cases v) auto
  have "fst (walkField c key v old path s) = set_prop (fst s) key v"
    using a na by (cases s) (simp add: walkField.simps)
  then show "map_option snd (get_own (fst r) key) = Some v"
    using s(1) obj by (simp add: r get_own_set_prop)
qed

theorem extractRefs_raises_exactly_witness:
  "\<not> isPOJO (VNum 5) \<and>
   extractRefs ex_host (VNum 5) VUndefined (ex_registry ex_subs) ex_opts 10 = Inr ((VNum 5, []), 10) \<and>
   isPOJO ex_plain_doc \<and> convertible ex_host ex_plain_doc \<and>
   (\<exists>r. extractRefs ex_host ex_plain_doc VUndefined (ex_registry []) ex_opts 10 = Inr r) \<and>
   isPOJO ex_unkeyed_doc \<and> \<not> convertible ex_host ex_unkeyed_doc \<and>
   extractRefs ex_host ex_unkeyed_doc VUndefined (ex_registry []) ex_opts 10 = Inl TypeError \<and>
   well_formed ex_doc \<and> class_of (VObj 10 ClsPlain []) = class_of ex_doc \<and>
   (Name ''name'', VStr ''a'') \<in> set (for_in ex_doc) \<and>
   \<not> isDocumentRef (VStr ''a'') \<and> \<not> isObject (VStr ''a'') \<and>
   recursiveExtract (ex_ctx []) ex_doc (Old VUndefined) [] (VObj 10 ClsPlain [], [], 11)
     = Inr (projr (recursiveExtract (ex_ctx []) ex_doc (Old VUndefined) [] (VObj 10 ClsPlain [], [], 11))) \<and>
   map_option snd
     (get_own (fst (projr (recursiveExtract (ex_ctx []) ex_doc (Old VUndefined) []
                             (VObj 10 ClsPlain [], [], 11)))) (Name ''name''))
     = Some (VStr ''a'')"
proof -
  have h1: "\<not> isPOJO (VNum 5)" by simp
  have h2: "isPOJO ex_plain_doc \<and> convertible ex_host ex_plain_doc"
    by code_simp
  have h3: "isPOJO ex_unkeyed_doc \<and> \<not> convertible ex_host ex_unkeyed_doc"
    by code_simp
  have h4: "well_formed ex_doc \<and> class_of (VObj 10 ClsPlain []) = class_of ex_doc \<and>
     (Name ''name'', VStr ''a'') \<in> set (for_in ex_doc) \<and>
     \<not> isDocumentRef (VStr ''a'') \<and> \<not> isObject (VStr ''a'')"
    by (simp add: ex_doc_def ex_ref_def assigned_attrs_def defined_attrs_def)
  have h5: "recursiveExtract (ex_ctx []) ex_doc (Old VUndefined) [] (VObj 10 ClsPlain [], [], 11)
     = Inr (projr (recursiveExtract (ex_ctx []) ex_doc (Old VUndefined) [] (VObj 10 ClsPlain [], [], 11)))"
    by code_simp
  have a: "extractRefs ex_host (VNum 5) VUndefined (ex_registry ex_subs) ex_opts 10 = Inr ((VNum 5, []), 10)"
    using extractRefs_raises_exactly [THEN conjunct1] h1 by blast
  have b: "\<exists>r. extractRefs ex_host ex_plain_doc VUndefined (ex_registry []) ex_opts 10 = Inr r"
    using extractRefs_raises_exactly [THEN conjunct2, THEN conjunct1] h2 by blast
  have c: "extractRefs ex_host ex_unkeyed_doc VUndefined (ex_registry []) ex_opts 10 = Inl TypeError"
    using extractRefs_raises_exactly [THEN conjunct2, THEN conjunct2, THEN conjunct1] h3 by blast
  have d: "map_option snd
     (get_own (fst (projr (recursiveExtract (ex_ctx []) ex_doc (Old VUndefined) []
                             (VObj 10 ClsPlain [], [], 11)))) (Name ''name''))
     = Some (VStr ''a'')"
    using extractRefs_raises_exactly [THEN conjunct2, THEN conjunct2, THEN conjunct2] h4 h5 by blast
  show ?thesis
    using h1 h2 h3 h4 h5 a b c d by simp
qed
section \<open>Documents without references\<close>



section \<open>References in the output\<close>



section \<open>Repeated decomposition\<close>

text \<open>
  Claim C5, as stated, fails in its second half: the record and array containers of the
  output are allocated anew in every cycle, also where nothing changed. Decomposing
  \<open>{ name: "a", tags: ["x", <hole>, "y"], nested: { n: 1 } }\<close> twice, the second time
  with the first result as old document, gives deep-equal results whose \<open>nested\<close>
  records and \<open>tags\<close> arrays are different objects.
\<close>

theorem containers_not_reused_counterexample:
  "deep_equal ex_host
     (fst (fst (projr (extractRefs ex_host ex_plain_doc
                  (fst (fst (projr (extractRefs ex_host ex_plain_doc VUndefined (ex_registry []) ex_opts 10))))
                  (ex_registry []) ex_opts
                  (snd (projr (extractRefs ex_host ex_plain_doc VUndefined (ex_registry []) ex_opts 10)))))))
     (fst (fst (projr (extractRefs ex_host ex_plain_doc VUndefined (ex_registry []) ex_opts 10)))) \<and>
   oid_of (get_prop ex_host
     (fst (fst (projr (extractRefs ex_host ex_plain_doc
                  (fst (fst (projr (extractRefs ex_host ex_plain_doc VUndefined (ex_registry []) ex_opts 10))))
                  (ex_registry []) ex_opts
                  (snd (projr (extractRefs ex_host ex_plain_doc VUndefined (ex_registry []) ex_opts 10)))))))
     (Name ''nested''))
   \<noteq> oid_of (get_prop ex_host
               (fst (fst (projr (extractRefs ex_host ex_plain_doc VUndefined (ex_registry []) ex_opts 10))))
               (Name ''nested'')) \<and>
   oid_of (get_prop ex_host
     (fst (fst (projr (extractRefs ex_host ex_plain_doc
                  (fst (fst (projr (extractRefs ex_host ex_plain_doc VUndefined (ex_registry []) ex_opts 10))))
                  (ex_registry []) ex_opts
                  (snd (projr (extractRefs ex_host ex_plain_doc VUndefined (ex_registry []) ex_opts 10)))))))
     (Name ''tags''))
   \<noteq> oid_of (get_prop ex_host
               (fst (fst (projr (extractRefs ex_host ex_plain_doc VUndefined (ex_registry []) ex_opts 10))))
               (Name ''tags''))"
  by code_simp

text \<open>
  Claim C5, amended. For a fixed registry and a document on which the walker returns
  (every truthy element of its arrays has a \<open>path\<close> that the host converts to a
  property key), decomposing the same document a second time with the first result's data
  as old document yields data deep-equal to the first result. The values at the reference
  fields of the document whose subscription key is found in the registry are taken over
  from the first result as they are (the same objects). The output container and the
  containers under the fields of the document are allocated anew by each call: when the
  second call allocates after the first, they are different objects from those of the
  first result.
\<close>

theorem second_decomposition_same_value:
  assumes "well_formed d" "isPOJO d" "well_formed oldDoc"
    and "\<forall>e \<in> set (reg_subs reg). well_formed (sub_data (snd e))"
    and "convertible h d"
  shows "\<exists>data1 refs1 m1 data2 refs2 m2.
           extractRefs h d oldDoc reg opts n1 = Inr ((data1, refs1), m1) \<and>
           extractRefs h d data1 reg opts n2 = Inr ((data2, refs2), m2) \<and>
           deep_equal h data2 data1 \<and> deep_equal h data1 data2 \<and>
           (\<forall>key p cv. (key, VRef p cv) \<in> set (for_in d) \<and> in_registry h reg (key_str key) \<longrightarrow>
              map_option snd (get_own data2 key) = map_option snd (get_own data1 key)) \<and>
           (m1 \<le> n2 \<longrightarrow>
              oid_of data2 \<noteq> oid_of data1 \<and>
              (\<forall>key v. (key, v) \<in> set (for_in d) \<and> isObject v \<longrightarrow>
                 oid_of (get_prop h data2 key) \<noteq> oid_of (get_prop h data1 key)))"
proof -
  let ?c = "\<lparr>c_host = h, c_subs = reg, c_byPath = subsByPath (reg_subs reg),
              c_converter = opt_converter opts\<rparr>"
  define W1 where "W1 = walkDoc ?c d (Old oldDoc) [] (VObj n1 ClsPlain [], [], Suc n1)"
  define R1 where "R1 = fst W1"
  define W2 where "W2 = walkDoc ?c d (Old R1) [] (VObj n2 ClsPlain [], [], Suc n2)"
  define R2 where "R2 = fst W2"
  have e1: "extractRefs h d oldDoc reg opts n1 = Inr ((R1, fst (snd W1)), snd (snd W1))"
    using assms(2,5) by (simp add: extractRefs_result Let_def R1_def W1_def)
  have e2: "extractRefs h d R1 reg opts n2 = Inr ((R2, fst (snd W2)), snd (snd W2))"
    using assms(2,5) by (simp add: extractRefs_result Let_def R2_def W2_def)
  have obj: "isObject d" and cls: "\<And>x. class_of (VObj x ClsPlain []) = class_of d"
    using assms(2) by (cases d; cases "the (class_of d)"; simp)+
  obtain cl where cl: "class_of d = Some cl" using obj by (cases d) auto
  have c1: "class_of R1 = Some cl"
    unfolding R1_def W1_def using walkDoc_shape(1) [OF assms(1) cls obj] cl by simp
  have c2: "class_of R2 = Some cl"
    unfolding R2_def W2_def using walkDoc_shape(1) [OF assms(1) cls obj] cl by simp
  have idx: "\<forall>e \<in> set (c_byPath ?c). well_formed (snd e)"
    using assms(4) subsByPath_values [of _ "reg_subs reg"] by fastforce
  have ow: "old_wf (Old oldDoc)" using assms(3) by simp
  have eq: "deep_equal h R2 R1 \<and> deep_equal h R1 R2"
    unfolding R2_def R1_def W2_def W1_def
    by (rule second_walk_deep_equal [OF idx assms(1) obj ow cls cls])
       (simp_all add: distinct_keys_def get_own_empty)
  have bound: "map_option snd (get_own R2 key) = map_option snd (get_own R1 key)"
    if k: "(key, VRef p cv) \<in> set (for_in d)" "in_registry h reg (key_str key)" for key p cv
  proof -
    have ok: "array_key_ok cl key" using for_in_key_ok [OF assms(1) cl k(1)] by simp
    obtain s1 where s1:
      "get_own R1 key = get_own (fst (walkField ?c key (VRef p cv) (Old oldDoc) [] s1)) key"
      "class_of (fst s1) = class_of d"
      unfolding R1_def W1_def using walk_reaches_field [OF assms(1) cls k(1)] by metis
    obtain s2 where s2:
      "get_own R2 key = get_own (fst (walkField ?c key (VRef p cv) (Old R1) [] s2)) key"
      "class_of (fst s2) = class_of d"
      unfolding R2_def W2_def using walk_reaches_field [OF assms(1) cls k(1)] by metis
    have o1: "isObject (fst s1)" using s1(2) cl by (simp add: class_isObject)
    have o2: "isObject (fst s2)" using s2(2) cl by (simp add: class_isObject)
    have g1: "fst (walkField ?c key (VRef p cv) (Old oldDoc) [] s1)
                = set_prop (fst s1) key (old_field h (Old oldDoc) (fst s1) key)"
      using k(2) by (cases s1) (simp add: walkField.simps Let_def)
    have g2: "fst (walkField ?c key (VRef p cv) (Old R1) [] s2)
                = set_prop (fst s2) key (old_field h (Old R1) (fst s2) key)"
      using k(2) by (cases s2) (simp add: walkField.simps Let_def)
    obtain at where own1: "get_own R1 key = Some (at, old_field h (Old oldDoc) (fst s1) key)"
      using s1(1) g1 o1 by (simp add: get_own_set_prop)
    have tr: "truthy R1" using c1 by (cases R1) auto
    have "old_field h (Old R1) (fst s2) key = old_field h (Old oldDoc) (fst s1) key"
      using get_prop_own_ok [OF c1 ok own1, of h] tr by simp
    then show ?thesis
      using s2(1) g2 o2 own1 by (simp add: get_own_set_prop)
  qed
  have top: "oid_of R1 = Some n1" "oid_of R2 = Some n2"
    unfolding R1_def R2_def W1_def W2_def by (simp_all add: walk_oid)
  have grown: "Suc n1 \<le> snd (snd W1)"
    unfolding W1_def using walk_counter(1) [of "(VObj n1 ClsPlain [], [], Suc n1)" ?c d "Old oldDoc" "[]"]
    by simp
  have fresh: "oid_of (get_prop h R2 key) \<noteq> oid_of (get_prop h R1 key)"
    if later: "snd (snd W1) \<le> n2" and k: "(key, v) \<in> set (for_in d)" "isObject v" for key v
  proof -
    have ok: "array_key_ok cl key" using for_in_key_ok [OF assms(1) cl k(1)] by simp
    obtain at1 x1 m1 where x1: "get_own R1 key = Some (at1, x1)" "oid_of x1 = Some m1"
      "m1 < snd (snd W1)"
      unfolding R1_def W1_def using walk_container_identity [OF assms(1) cls k] by blast
    obtain at2 x2 m2 where x2: "get_own R2 key = Some (at2, x2)" "oid_of x2 = Some m2"
      "Suc n2 \<le> m2"
      unfolding R2_def W2_def using walk_container_identity [OF assms(1) cls k] by blast
    have "get_prop h R1 key = x1" "get_prop h R2 key = x2"
      using get_prop_own_ok [OF c1 ok x1(1), of h] get_prop_own_ok [OF c2 ok x2(1), of h] by simp_all
    then show ?thesis using x1(2,3) x2(2,3) later by simp
  qed
  have "deep_equal h R2 R1 \<and> deep_equal h R1 R2 \<and>
           (\<forall>key p cv. (key, VRef p cv) \<in> set (for_in d) \<and> in_registry h reg (key_str key) \<longrightarrow>
              map_option snd (get_own R2 key) = map_option snd (get_own R1 key)) \<and>
           (snd (snd W1) \<le> n2 \<longrightarrow>
              oid_of R2 \<noteq> oid_of R1 \<and>
              (\<forall>key v. (key, v) \<in> set (for_in d) \<and> isObject v \<longrightarrow>
                 oid_of (get_prop h R2 key) \<noteq> oid_of (get_prop h R1 key)))"
    using eq bound top grown fresh by (auto simp del: deep_equal.simps)
  then show ?thesis
    using e1 e2 by blast
qed

theorem second_decomposition_same_value_witness:
  "well_formed ex_mixed_doc \<and> isPOJO ex_mixed_doc \<and> well_formed ex_old_doc \<and>
   list_all (\<lambda>e. well_formed (sub_data (snd e))) ex_subs \<and>
   convertible ex_host ex_mixed_doc \<and>
   (Name ''owner'', VRef ''users/1'' None) \<in> set (for_in ex_mixed_doc) \<and>
   in_registry ex_host (ex_registry ex_subs) (key_str (Name ''owner'')) \<and>
   snd (projr (extractRefs ex_host ex_mixed_doc ex_old_doc (ex_registry ex_subs) ex_opts 50)) \<le> 52 \<and>
   (Name ''nested'', VObj 41 ClsPlain [(Name ''n'', assigned_attrs, VNum 1)]) \<in> set (for_in ex_mixed_doc) \<and>
   isObject (VObj 41 ClsPlain [(Name ''n'', assigned_attrs, VNum 1)]) \<and>
   (\<exists>data1 refs1 m1 data2 refs2 m2.
      extractRefs ex_host ex_mixed_doc ex_old_doc (ex_registry ex_subs) ex_opts 50 = Inr ((data1, refs1), m1) \<and>
      extractRefs ex_host ex_mixed_doc data1 (ex_registry ex_subs) ex_opts 52 = Inr ((data2, refs2), m2) \<and>
      deep_equal ex_host data2 data1 \<and>
      map_option snd (get_own data2 (Name ''owner'')) = map_option snd (get_own data1 (Name ''owner'')) \<and>
      oid_of data2 \<noteq> oid_of data1 \<and>
      oid_of (get_prop ex_host data2 (Name ''nested'')) \<noteq> oid_of (get_prop ex_host data1 (Name ''nested'')))"
proof -
  have h1: "well_formed ex_mixed_doc"
    by (simp add: ex_mixed_doc_def ex_ref_def)
  have h2: "isPOJO ex_mixed_doc"
    by (simp add: ex_mixed_doc_def)
  have h3: "well_formed ex_old_doc"
    by (simp add: ex_old_doc_def ex_bob_def)
  have h4: "\<forall>e \<in> set (reg_subs (ex_registry ex_subs)). well_formed (sub_data (snd e))"
    by (simp add: ex_registry_def ex_subs_def ex_bob_def)
  have h5: "convertible ex_host ex_mixed_doc"
    by code_simp
  have h6: "(Name ''owner'', VRef ''users/1'' None) \<in> set (for_in ex_mixed_doc)"
    by (simp add: ex_mixed_doc_def ex_ref_def assigned_attrs_def defined_attrs_def)
  have h7: "in_registry ex_host (ex_registry ex_subs) (key_str (Name ''owner''))"
    by (simp add: in_registry_def ex_registry_def ex_subs_def)
  have h8: "snd (projr (extractRefs ex_host ex_mixed_doc ex_old_doc (ex_registry ex_subs) ex_opts 50)) \<le> 52"
    by code_simp
  have h9: "(Name ''nested'', VObj 41 ClsPlain [(Name ''n'', assigned_attrs, VNum 1)])
              \<in> set (for_in ex_mixed_doc)"
    by (simp add: ex_mixed_doc_def ex_ref_def assigned_attrs_def defined_attrs_def)
  have h10: "isObject (VObj 41 ClsPlain [(Name ''n'', assigned_attrs, VNum 1)])"
    by simp
  obtain data1 refs1 m1 data2 refs2 m2 where t:
    "extractRefs ex_host ex_mixed_doc ex_old_doc (ex_registry ex_subs) ex_opts 50 = Inr ((data1, refs1), m1)"
    "extractRefs ex_host ex_mixed_doc data1 (ex_registry ex_subs) ex_opts 52 = Inr ((data2, refs2), m2)"
    "deep_equal ex_host data2 data1"
    "\<forall>key p cv. (key, VRef p cv) \<in> set (for_in ex_mixed_doc) \<and>
                 in_registry ex_host (ex_registry ex_subs) (key_str key) \<longrightarrow>
              map_option snd (get_own data2 key) = map_option snd (get_own data1 key)"
    "m1 \<le> 52 \<longrightarrow>
              oid_of data2 \<noteq> oid_of data1 \<and>
              (\<forall>key v. (key, v) \<in> set (for_in ex_mixed_doc) \<and> isObject v \<longrightarrow>
                 oid_of (get_prop ex_host data2 key) \<noteq> oid_of (get_prop ex_host data1 key))"
    using second_decomposition_same_value [OF h1 h2 h3 h4 h5, of ex_opts 50 52] by blast
  have m: "m1 \<le> 52" using h8 t(1) by simp
  have b: "map_option snd (get_own data2 (Name ''owner'')) = map_option snd (get_own data1 (Name ''owner''))"
    using t(4) h6 h7 by blast
  have f: "oid_of data2 \<noteq> oid_of data1"
    "oid_of (get_prop ex_host data2 (Name ''nested'')) \<noteq> oid_of (get_prop ex_host data1 (Name ''nested''))"
    using t(5) m h9 h10 by blast+
  have l: "list_all (\<lambda>e. well_formed (sub_data (snd e))) ex_subs"
    using h4 by (simp add: list_all_iff ex_registry_def)
  have "\<exists>data1 refs1 m1 data2 refs2 m2.
      extractRefs ex_host ex_mixed_doc ex_old_doc (ex_registry ex_subs) ex_opts 50 = Inr ((data1, refs1), m1) \<and>
      extractRefs ex_host ex_mixed_doc data1 (ex_registry ex_subs) ex_opts 52 = Inr ((data2, refs2), m2) \<and>
      deep_equal ex_host data2 data1 \<and>
      map_option snd (get_own data2 (Name ''owner'')) = map_option snd (get_own data1 (Name ''owner'')) \<and>
      oid_of data2 \<noteq> oid_of data1 \<and>
      oid_of (get_prop ex_host data2 (Name ''nested'')) \<noteq> oid_of (get_prop ex_host data1 (Name ''nested''))"
    using t(1,2,3) b f by blast
  then show ?thesis
    using h1 h2 h3 l h5 h6 h7 h8 h9 h10 by simp
qed
section \<open>Records from database snapshots\<close>

text \<open>
  Claim C7. For an absent snapshot the normalizer returns \<open>null\<close>. For a snapshot whose
  value is a structured container it returns that container itself (same identity and
  class, no allocation, all other properties untouched) with the four metadata fields
  \<open>.key\<close>, \<open>.priority\<close>, \<open>.ref\<close>, \<open>.size\<close> defined on it as non-enumerable,
  read-only properties: a direct read returns them, a field enumeration does not visit
  them. For any other value it returns a newly allocated plain object holding the value
  under \<open>$value\<close> and the same four metadata fields.
\<close>

theorem createRecordFromDatabaseSnapshot_cases:
  "(\<not> snap_exists s \<longrightarrow> createRecordFromDatabaseSnapshot s n = (VNull, n)) \<and>
   (snap_exists s \<and> isObject (snap_val s) \<and> well_formed (snap_val s) \<longrightarrow>
      snd (createRecordFromDatabaseSnapshot s n) = n \<and>
      oid_of (fst (createRecordFromDatabaseSnapshot s n)) = oid_of (snap_val s) \<and>
      class_of (fst (createRecordFromDatabaseSnapshot s n)) = class_of (snap_val s) \<and>
      (\<forall>k. k \<notin> fst ` set (metadata s) \<longrightarrow>
           get_own (fst (createRecordFromDatabaseSnapshot s n)) k = get_own (snap_val s) k) \<and>
      (\<forall>kv \<in> set (metadata s).
           get_own (fst (createRecordFromDatabaseSnapshot s n)) (fst kv) = Some (defined_attrs, snd kv) \<and>
           get_prop h (fst (createRecordFromDatabaseSnapshot s n)) (fst kv) = snd kv \<and>
           fst kv \<notin> fst ` set (for_in (fst (createRecordFromDatabaseSnapshot s n))))) \<and>
   (snap_exists s \<and> \<not> isObject (snap_val s) \<longrightarrow>
      createRecordFromDatabaseSnapshot s n =
        (VObj n ClsPlain
           [(Name ''$value'', assigned_attrs, snap_val s),
            (Name ''.key'', assigned_attrs, snap_key s),
            (Name ''.priority'', assigned_attrs, snap_priority s),
            (Name ''.ref'', assigned_attrs, snap_ref s),
            (Name ''.size'', assigned_attrs, snap_size s)],
         Suc n))"
proof (intro conjI impI)
  assume "\<not> snap_exists s"
  then show "createRecordFromDatabaseSnapshot s n = (VNull, n)"
    by (simp add: createRecordFromDatabaseSnapshot_def)
next
  assume "snap_exists s \<and> \<not> isObject (snap_val s)"
  then show "createRecordFromDatabaseSnapshot s n =
        (VObj n ClsPlain
           [(Name ''$value'', assigned_attrs, snap_val s),
            (Name ''.key'', assigned_attrs, snap_key s),
            (Name ''.priority'', assigned_attrs, snap_priority s),
            (Name ''.ref'', assigned_attrs, snap_ref s),
            (Name ''.size'', assigned_attrs, snap_size s)],
         Suc n)"
    by (simp add: createRecordFromDatabaseSnapshot_def metadata_def)
next
  assume a: "snap_exists s \<and> isObject (snap_val s) \<and> well_formed (snap_val s)"
  let ?r = "fst (createRecordFromDatabaseSnapshot s n)"
  have r: "createRecordFromDatabaseSnapshot s n = (defineProperties (snap_val s) (metadata s), n)"
    using a by (simp add: createRecordFromDatabaseSnapshot_def)
  obtain cl where cl: "class_of (snap_val s) = Some cl"
    using a by (cases "snap_val s") auto
  have dist: "distinct (map fst (metadata s))" by (simp add: metadata_def)
  have ok: "\<forall>kv \<in> set (metadata s). array_key_ok cl (fst kv)"
    by (cases cl) (auto simp: metadata_def)
  note p = defineProperties_props [OF cl dist ok]
  have dk: "distinct_keys ?r"
    using p a by (simp add: r wf_distinct_keys)
  show "snd (createRecordFromDatabaseSnapshot s n) = n" by (simp add: r)
  show "oid_of ?r = oid_of (snap_val s)" using p by (simp add: r)
  show "class_of ?r = class_of (snap_val s)" using p cl by (simp add: r)
  show "\<forall>k. k \<notin> fst ` set (metadata s) \<longrightarrow> get_own ?r k = get_own (snap_val s) k"
    using p by (auto simp: r map_of_eq_None_iff split: option.splits)
  show "\<forall>kv \<in> set (metadata s).
           get_own ?r (fst kv) = Some (defined_attrs, snd kv) \<and>
           get_prop h ?r (fst kv) = snd kv \<and>
           fst kv \<notin> fst ` set (for_in ?r)"
  proof
    fix kv assume kv: "kv \<in> set (metadata s)"
    then have "map_of (metadata s) (fst kv) = Some (snd kv)"
      using dist by (metis map_of_eq_Some_iff prod.collapse)
    then have own: "get_own ?r (fst kv) = Some (defined_attrs, snd kv)"
      using p by (simp add: r)
    have nl: "fst kv \<noteq> Name ''length''" using kv by (auto simp: metadata_def)
    have "fst kv \<notin> fst ` set (for_in ?r)"
      using own dk by (auto simp: for_in_iff defined_attrs_def)
    then show "get_own ?r (fst kv) = Some (defined_attrs, snd kv) \<and>
           get_prop h ?r (fst kv) = snd kv \<and>
           fst kv \<notin> fst ` set (for_in ?r)"
      using own get_prop_own [OF own nl] by simp
  qed
qed

theorem createRecordFromDatabaseSnapshot_cases_witness:
  "createRecordFromDatabaseSnapshot ((ex_snapshot VNull)\<lparr>snap_exists := False\<rparr>) 10 = (VNull, 10) \<and>
   snap_exists (ex_snapshot ex_bob) \<and> isObject (snap_val (ex_snapshot ex_bob)) \<and>
   well_formed (snap_val (ex_snapshot ex_bob)) \<and>
   oid_of (fst (createRecordFromDatabaseSnapshot (ex_snapshot ex_bob) 10)) = Some 2 \<and>
   get_prop ex_host (fst (createRecordFromDatabaseSnapshot (ex_snapshot ex_bob) 10)) (Name ''.key'')
     = VStr ''ada'' \<and>
   Name ''.key'' \<notin> fst ` set (for_in (fst (createRecordFromDatabaseSnapshot (ex_snapshot ex_bob) 10))) \<and>
   \<not> isObject (snap_val (ex_snapshot (VNum 42))) \<and>
   createRecordFromDatabaseSnapshot (ex_snapshot (VNum 42)) 10 =
     (VObj 10 ClsPlain
        [(Name ''$value'', assigned_attrs, VNum 42),
         (Name ''.key'', assigned_attrs, VStr ''ada''),
         (Name ''.priority'', assigned_attrs, VNull),
         (Name ''.ref'', assigned_attrs, VStr ''/users/ada''),
         (Name ''.size'', assigned_attrs, VNum 1)],
      11)"
  using createRecordFromDatabaseSnapshot_cases [of "(ex_snapshot VNull)\<lparr>snap_exists := False\<rparr>" 10 ex_host]
        createRecordFromDatabaseSnapshot_cases [of "ex_snapshot ex_bob" 10 ex_host]
        createRecordFromDatabaseSnapshot_cases [of "ex_snapshot (VNum 42)" 10 ex_host]
  by (simp add: ex_snapshot_def ex_bob_def metadata_def)

end
